theory Spec2Isabelle
  imports Complex_Main
begin

section \<open>Numbers and typed arrays\<close>

text \<open>
  The stencil pipeline of \<^verbatim>\<open>src/utils/imageProcessor.ts\<close> works on JavaScript numbers held in
  \<^verbatim>\<open>Float32Array\<close> buffers. A number is modelled as a real, with one extra value for
  \<^verbatim>\<open>NaN\<close>: reading a typed array outside its bounds yields \<^verbatim>\<open>undefined\<close>, and every
  arithmetic operation on \<^verbatim>\<open>undefined\<close> or \<^verbatim>\<open>NaN\<close> yields \<^verbatim>\<open>NaN\<close>. The operations
  \<open>nadd\<close>, \<open>nsub\<close>, \<open>nmul\<close> and \<open>ndiv\<close> on the buffers of the stencil path are the exact
  ones: the rounding of the blur, of its sums, of the bias and the cut-off of the two
  thresholds, and of the stores into the 32-bit buffers is not modelled.
\<close>

datatype number = NaN | Num real

fun nadd :: "number \<Rightarrow> number \<Rightarrow> number" where
  "nadd (Num a) (Num b) = Num (a + b)"
| "nadd _ _ = NaN"

fun nsub :: "number \<Rightarrow> number \<Rightarrow> number" where
  "nsub (Num a) (Num b) = Num (a - b)"
| "nsub _ _ = NaN"

fun nmul :: "number \<Rightarrow> number \<Rightarrow> number" where
  "nmul (Num a) (Num b) = Num (a * b)"
| "nmul _ _ = NaN"

text \<open>Division is only ever applied with a positive divisor (a window size).\<close>

fun ndiv :: "number \<Rightarrow> real \<Rightarrow> number" where
  "ndiv (Num a) d = Num (a / d)"
| "ndiv NaN d = NaN"

text \<open>\<^verbatim>\<open>Math.min\<close> and \<^verbatim>\<open>Math.max\<close> return \<^verbatim>\<open>NaN\<close> as soon as one argument is \<^verbatim>\<open>NaN\<close>.\<close>

fun nmin :: "number \<Rightarrow> number \<Rightarrow> number" where
  "nmin (Num a) (Num b) = Num (min a b)"
| "nmin _ _ = NaN"

fun nmax :: "number \<Rightarrow> number \<Rightarrow> number" where
  "nmax (Num a) (Num b) = Num (max a b)"
| "nmax _ _ = NaN"

text \<open>The comparisons \<^verbatim>\<open><\<close> and \<^verbatim>\<open>>\<close> are false as soon as one side is \<^verbatim>\<open>NaN\<close>.\<close>

fun nlt :: "number \<Rightarrow> number \<Rightarrow> bool" where
  "nlt (Num a) (Num b) = (a < b)"
| "nlt _ _ = False"

fun ngt :: "number \<Rightarrow> number \<Rightarrow> bool" where
  "ngt (Num a) (Num b) = (a > b)"
| "ngt _ _ = False"

text \<open>
  Where a result is rounded up to an integer or stored as a byte, the rounding of the
  doubles decides the outcome, and the arithmetic is modelled as it is: every operation
  returns the double nearest to the exact result, ties to the even significand. A double
  has a significand of 53 bits: \<open>normalise\<close> scales \<open>\<bar>x\<bar>\<close> by powers of 2 into
  \<open>[2^52, 2^53)\<close> and returns the scaled value with the unit \<open>u\<close> of its last place, and
  \<open>roundDouble\<close> rounds the scaled value to an integer. Overflow and the subnormal numbers
  (magnitudes beyond \<open>2^1023\<close> or below \<open>2^-1022\<close>) are not modelled.
\<close>

definition roundHalfEven :: "real \<Rightarrow> int" where
  "roundHalfEven q =
    (let f = \<lfloor>q\<rfloor>
     in if q < real_of_int f + 0.5 then f
        else if real_of_int f + 0.5 < q then f + 1
        else if even f then f else f + 1)"

primrec normalise :: "nat \<Rightarrow> real \<Rightarrow> real \<Rightarrow> real \<times> real" where
  "normalise 0 m u = (m, u)"
| "normalise (Suc n) m u =
     (if m < 2 ^ 52 then normalise n (2 * m) (u / 2)
      else if 2 ^ 53 \<le> m then normalise n (m / 2) (2 * u)
      else (m, u))"

definition roundDouble :: "real \<Rightarrow> real" where
  "roundDouble x =
    (if x = 0 then 0
     else (let (m, u) = normalise 2200 \<bar>x\<bar> 1
           in sgn x * real_of_int (roundHalfEven m) * u))"

text \<open>The operations \<^verbatim>\<open>+\<close>, \<^verbatim>\<open>-\<close>, \<^verbatim>\<open>*\<close> and \<^verbatim>\<open>/\<close> on doubles, and a decimal literal.\<close>

fun dadd :: "number \<Rightarrow> number \<Rightarrow> number" where
  "dadd (Num a) (Num b) = Num (roundDouble (a + b))"
| "dadd _ _ = NaN"


fun dmul :: "number \<Rightarrow> number \<Rightarrow> number" where
  "dmul (Num a) (Num b) = Num (roundDouble (a * b))"
| "dmul _ _ = NaN"




text \<open>Reading index \<open>i\<close> of a \<^verbatim>\<open>Float32Array\<close>: \<^verbatim>\<open>undefined\<close> (here \<open>NaN\<close>) outside the bounds.\<close>

definition rd :: "number list \<Rightarrow> nat \<Rightarrow> number" where
  "rd xs i = (if i < length xs then xs ! i else NaN)"

text \<open>Reading byte \<open>i\<close> of the \<^verbatim>\<open>Uint8ClampedArray\<close> of RGBA pixel data.\<close>

definition rdb :: "nat list \<Rightarrow> nat \<Rightarrow> number" where
  "rdb data i = (if i < length data then Num (real (data ! i)) else NaN)"

section \<open>Settings\<close>

datatype StencilMode = SOLID | HOLLOW | REALISM

text \<open>
  The interface \<^verbatim>\<open>StencilSettings\<close> of \<^verbatim>\<open>src/types.ts\<close>. The optional fields are options;
  the sliders of the application deliver \<^verbatim>\<open>thickness\<close> and \<^verbatim>\<open>noiseReduction\<close> through
  \<^verbatim>\<open>parseInt\<close>, so they are integers. A missing \<^verbatim>\<open>variantCount\<close> is \<open>0\<close>, which the code
  treats alike (\<^verbatim>\<open>settings.variantCount || 9\<close>).
\<close>

record StencilSettings =
  threshold :: real
  thickness :: int
  noiseReduction :: int
  mode :: StencilMode
  isMirrored :: bool
  isMultipleSizes :: bool
  variantCount :: int
  minSize :: real
  maxSize :: real
  showDimensions :: bool
  saturation :: "real option"
  contrast :: "real option"
  brightness :: "real option"
  sharpness :: "real option"

section \<open>Sliding-window box blur\<close>

text \<open>
  One row of the horizontal pass of \<^verbatim>\<open>boxBlur\<close>: the accumulator is filled with \<open>radius\<close>
  copies of the first pixel of the row and the pixels \<open>rowStart + i\<close> for \<open>i \<le> radius\<close>
  (not clamped to the row), then slides over the row. The state of the loop is the running
  sum and the buffer \<^verbatim>\<open>temp\<close>.
\<close>

definition blurRow :: "number list \<Rightarrow> nat \<Rightarrow> nat \<Rightarrow> nat \<Rightarrow> number list \<Rightarrow> number list" where
  "blurRow source w radius y temp =
    (let rowStart = y * w;
         windowSize = radius * 2 + 1;
         sum0 = fold (\<lambda>i acc. nadd acc (rd source rowStart)) [0..<radius] (Num 0);
         sum1 = fold (\<lambda>i acc. nadd acc (rd source (rowStart + i))) [0..<radius + 1] sum0
     in snd (fold (\<lambda>x (acc, temp).
               (let temp' = temp[rowStart + x := ndiv acc (real windowSize)];
                    leavingIndex = nat (max 0 (int x - int radius));
                    enteringIndex = min (w - 1) (x + radius + 1)
                in (nadd (nsub acc (rd source (rowStart + leavingIndex)))
                         (rd source (rowStart + enteringIndex)), temp')))
             [0..<w] (sum1, temp)))"

text \<open>One column of the vertical pass, reading \<^verbatim>\<open>temp\<close> and writing \<^verbatim>\<open>target\<close>.\<close>

definition blurCol :: "number list \<Rightarrow> nat \<Rightarrow> nat \<Rightarrow> nat \<Rightarrow> nat \<Rightarrow> number list \<Rightarrow> number list" where
  "blurCol temp w h radius x target =
    (let windowSize = radius * 2 + 1;
         sum0 = fold (\<lambda>i acc. nadd acc (rd temp x)) [0..<radius] (Num 0);
         sum1 = fold (\<lambda>i acc. nadd acc (rd temp (x + i * w))) [0..<radius + 1] sum0
     in snd (fold (\<lambda>y (acc, target).
               (let target' = target[y * w + x := ndiv acc (real windowSize)];
                    leavingIndex = nat (max 0 (int y - int radius));
                    enteringIndex = min (h - 1) (y + radius + 1)
                in (nadd (nsub acc (rd temp (leavingIndex * w + x)))
                         (rd temp (enteringIndex * w + x)), target')))
             [0..<h] (sum1, target)))"

definition boxBlur :: "number list \<Rightarrow> nat \<Rightarrow> nat \<Rightarrow> int \<Rightarrow> number list" where
  "boxBlur source w h radius =
    (if radius < 1 then source
     else (let len = w * h;
               temp = fold (blurRow source w (nat radius)) [0..<h] (replicate len (Num 0));
               target = fold (blurCol temp w h (nat radius)) [0..<w] (replicate len (Num 0))
           in target))"

section \<open>Luma, detail filter and binarization\<close>

definition lumaPlane :: "nat list \<Rightarrow> nat \<Rightarrow> nat \<Rightarrow> number list" where
  "lumaPlane data w h =
     fold (\<lambda>i luma. luma[i := nadd (nadd (nmul (rdb data (i * 4)) (Num 0.299))
                                          (nmul (rdb data (i * 4 + 1)) (Num 0.587)))
                                    (nmul (rdb data (i * 4 + 2)) (Num 0.114))])
          [0..<w * h] (replicate (w * h) (Num 0))"

text \<open>Step 3 of \<^verbatim>\<open>generateStencil\<close>: unsharp mask for a negative detail level, pre-blur for
  a positive one in SOLID mode only.\<close>

definition detailFilter :: "number list \<Rightarrow> nat \<Rightarrow> nat \<Rightarrow> StencilMode \<Rightarrow> int \<Rightarrow> number list" where
  "detailFilter luma w h m nr =
    (if nr < 0 then
       (let strength = real_of_int \<bar>nr\<bar> * 0.5;
            blurForSharpen = boxBlur luma w h 1
        in fold (\<lambda>i processedLuma.
                   (let detail = nsub (rd luma i) (rd blurForSharpen i);
                        val = nadd (rd luma i) (nmul detail (Num strength))
                    in processedLuma[i := nmin (Num 255) (nmax (Num 0) val)]))
                [0..<w * h] (replicate (w * h) (Num 0)))
     else if nr > 0 then (if m = SOLID then boxBlur luma w h nr else luma)
     else luma)"

text \<open>Step 4: adaptive threshold in SOLID mode, difference of Gaussians otherwise.\<close>

definition adaptiveThreshold :: "number list \<Rightarrow> nat \<Rightarrow> nat \<Rightarrow> real \<Rightarrow> number list" where
  "adaptiveThreshold processedLuma w h thr =
    (let localMean = boxBlur processedLuma w h 16;
         bias = (255 - thr) / 5
     in fold (\<lambda>i output.
                output[i := (if nlt (rd processedLuma i) (nsub (rd localMean i) (Num bias))
                             then Num 0 else Num 255)])
             [0..<w * h] (replicate (w * h) (Num 0)))"

text \<open>
  The two blur radii of the difference of Gaussians. The products are doubles:
  \<^verbatim>\<open>effectiveBlur * 0.8\<close> and \<^verbatim>\<open>r1 * 2.5\<close> can exceed the exact product by one unit in the
  last place, and \<^verbatim>\<open>Math.ceil\<close> then gives the next integer.
\<close>

definition dogRadii :: "int \<Rightarrow> int \<times> int" where
  "dogRadii nr =
    (let effectiveBlur = max 0 nr;
         r1 = max 0.5 (roundDouble (real_of_int effectiveBlur * roundDouble 0.8));
         r2 = roundDouble (r1 * 2.5)
     in (\<lceil>r1\<rceil>, \<lceil>r2\<rceil>))"

definition differenceOfGaussians :: "number list \<Rightarrow> nat \<Rightarrow> nat \<Rightarrow> int \<Rightarrow> real \<Rightarrow> number list" where
  "differenceOfGaussians processedLuma w h nr thr =
    (let blur1 = boxBlur processedLuma w h (fst (dogRadii nr));
         blur2 = boxBlur processedLuma w h (snd (dogRadii nr));
         sensitivity = (255 - thr) / 255;
         cutoff = 2 + sensitivity * 10
     in fold (\<lambda>i output.
                (let diff = nsub (rd blur1 i) (rd blur2 i)
                 in output[i := (if nlt diff (Num (- cutoff)) then Num 0 else Num 255)]))
             [0..<w * h] (replicate (w * h) (Num 0)))"

definition binarize :: "number list \<Rightarrow> nat \<Rightarrow> nat \<Rightarrow> StencilMode \<Rightarrow> int \<Rightarrow> real \<Rightarrow> number list" where
  "binarize luma w h m nr thr =
    (let processedLuma = detailFilter luma w h m nr
     in if m = SOLID then adaptiveThreshold processedLuma w h thr
        else differenceOfGaussians processedLuma w h nr thr)"

section \<open>Morphology\<close>

text \<open>The value one pass writes to \<^verbatim>\<open>dst[idx]\<close> for the pixel \<open>(x, y)\<close>.\<close>

definition morphPixel :: "bool \<Rightarrow> number list \<Rightarrow> nat \<Rightarrow> nat \<Rightarrow> nat \<Rightarrow> nat \<Rightarrow> number" where
  "morphPixel isDilate src w h x y =
    (let idx = y * w + x;
         val = rd src idx
     in if isDilate then
          (if ngt val (Num 128) then
             (let n = (if y > 0 then rd src (idx - w) else Num 255);
                  s = (if y < h - 1 then rd src (idx + w) else Num 255);
                  w_pix = (if x > 0 then rd src (idx - 1) else Num 255);
                  e_pix = (if x < w - 1 then rd src (idx + 1) else Num 255)
              in if nlt n (Num 128) \<or> nlt s (Num 128) \<or> nlt w_pix (Num 128) \<or> nlt e_pix (Num 128)
                 then Num 0 else Num 255)
           else Num 0)
        else
          (if nlt val (Num 128) then
             (let n = (if y > 0 then rd src (idx - w) else Num 0);
                  s = (if y < h - 1 then rd src (idx + w) else Num 0);
                  w_pix = (if x > 0 then rd src (idx - 1) else Num 0);
                  e_pix = (if x < w - 1 then rd src (idx + 1) else Num 0)
              in if ngt n (Num 128) \<or> ngt s (Num 128) \<or> ngt w_pix (Num 128) \<or> ngt e_pix (Num 128)
                 then Num 255 else Num 0)
           else Num 255))"

text \<open>One pass: the loops over \<open>y\<close> and \<open>x\<close>, reading \<^verbatim>\<open>src\<close> and writing \<^verbatim>\<open>dst\<close>.\<close>

definition morphPass :: "bool \<Rightarrow> nat \<Rightarrow> nat \<Rightarrow> number list \<Rightarrow> number list \<Rightarrow> number list" where
  "morphPass isDilate w h src dst =
     fold (\<lambda>y dst. fold (\<lambda>x dst. dst[y * w + x := morphPixel isDilate src w h x y]) [0..<w] dst)
          [0..<h] dst"

definition safePasses :: "int \<Rightarrow> nat" where
  "safePasses thick = nat (min \<bar>thick\<bar> 15)"

text \<open>Step 5: the two buffers \<^verbatim>\<open>bufA\<close> and \<^verbatim>\<open>bufB\<close> swap roles at every pass; the
  state of the loop over \<open>p\<close> is the pair of buffers.\<close>

definition morphLoop :: "bool \<Rightarrow> nat \<Rightarrow> nat \<Rightarrow> nat \<Rightarrow> number list \<times> number list \<Rightarrow> number list \<times> number list" where
  "morphLoop isDilate w h n bufs =
     fold (\<lambda>p (bufA, bufB).
             if p mod 2 = 0 then (bufA, morphPass isDilate w h bufA bufB)
             else (morphPass isDilate w h bufB bufA, bufB))
          [0..<n] bufs"

definition morphology :: "number list \<Rightarrow> nat \<Rightarrow> nat \<Rightarrow> int \<Rightarrow> number list" where
  "morphology output w h thick =
    (if thick \<noteq> 0 then
       (let isDilate = (thick > 0);
            bufA = output;
            bufB = replicate (length output) (Num 0);
            (bufA', bufB') = morphLoop isDilate w h (safePasses thick) (bufA, bufB)
        in if safePasses thick mod 2 = 0 then bufA' else bufB')
     else output)"

text \<open>
  The map one pass produces from \<^verbatim>\<open>src\<close>: the pass run on a fresh destination of \<open>w * h\<close>
  cells (the pass overwrites every cell, so the old content of the destination does not
  matter).
\<close>

definition morphStep :: "bool \<Rightarrow> nat \<Rightarrow> nat \<Rightarrow> number list \<Rightarrow> number list" where
  "morphStep isDilate w h src = morphPass isDilate w h src (replicate (w * h) (Num 0))"

text \<open>Steps 2 to 5 of \<^verbatim>\<open>generateStencil\<close> for the SOLID and HOLLOW modes: the map
  \<^verbatim>\<open>finalMap\<close> that is copied into the intermediate stencil image.\<close>

definition finalMap :: "nat list \<Rightarrow> nat \<Rightarrow> nat \<Rightarrow> 'a StencilSettings_scheme \<Rightarrow> number list" where
  "finalMap data w h settings =
    (let luma = lumaPlane data w h;
         output = binarize luma w h (mode settings) (noiseReduction settings) (threshold settings)
     in morphology output w h (thickness settings))"

section \<open>Realism path\<close>

text \<open>
  Storing a number into a \<^verbatim>\<open>Uint8ClampedArray\<close>: \<^verbatim>\<open>NaN\<close> becomes \<open>0\<close>, the value is clamped
  to \<open>[0, 255]\<close> and rounded to the nearest integer, ties to the even one.
\<close>

definition toUint8Clamp :: "number \<Rightarrow> nat" where
  "toUint8Clamp v =
    (case v of
       NaN \<Rightarrow> 0
     | Num x \<Rightarrow>
         if x \<le> 0 then 0
         else if x \<ge> 255 then 255
         else nat (roundHalfEven x))"

text \<open>The helper \<^verbatim>\<open>clamp(val, min, max) = Math.min(max, Math.max(min, val))\<close>.\<close>

definition clamp :: "number \<Rightarrow> real \<Rightarrow> real \<Rightarrow> number" where
  "clamp val lo hi = nmin (Num hi) (nmax (Num lo) val)"

text \<open>Reading entry \<open>i\<close> of the kernel, a plain array of numbers.\<close>

definition rdm :: "real list \<Rightarrow> nat \<Rightarrow> number" where
  "rdm matrix i = (if i < length matrix then Num (matrix ! i) else NaN)"

text \<open>
  The weighted sums \<open>(r, g, b)\<close> that \<^verbatim>\<open>convolve\<close> accumulates for the pixel \<open>(x, y)\<close>: the
  loops over \<open>cy\<close> and \<open>cx\<close>, skipping every tap outside the image. Each
  \<^verbatim>\<open>r += src[srcOff] * wt\<close> is a product and a sum of doubles.
\<close>

definition convolveTaps ::
  "nat list \<Rightarrow> nat \<Rightarrow> nat \<Rightarrow> real list \<Rightarrow> nat \<Rightarrow> nat \<Rightarrow> nat \<Rightarrow> nat \<Rightarrow> number \<times> number \<times> number" where
  "convolveTaps src w h matrix side half x y =
     fold (\<lambda>cy. fold (\<lambda>cx (r, g, b).
             (let scy = int y + int cy - int half;
                  scx = int x + int cx - int half
              in if scy \<ge> 0 \<and> scy < int h \<and> scx \<ge> 0 \<and> scx < int w then
                   (let srcOff = (nat scy * w + nat scx) * 4;
                        wt = rdm matrix (cy * side + cx)
                    in (dadd r (dmul (rdb src srcOff) wt),
                        dadd g (dmul (rdb src (srcOff + 1)) wt),
                        dadd b (dmul (rdb src (srcOff + 2)) wt)))
                 else (r, g, b)))
           [0..<side])
          [0..<side] (Num 0, Num 0, Num 0)"

definition convolve :: "nat list \<Rightarrow> nat \<Rightarrow> nat \<Rightarrow> real list \<Rightarrow> nat list" where
  "convolve data w h matrix =
    (let side = nat (round (sqrt (real (length matrix))));
         half = side div 2;
         src = data
     in fold (\<lambda>y. fold (\<lambda>x data.
                (let (r, g, b) = convolveTaps src w h matrix side half x y;
                     dstOff = (y * w + x) * 4
                 in data[dstOff := toUint8Clamp (clamp r 0 255),
                         dstOff + 1 := toUint8Clamp (clamp g 0 255),
                         dstOff + 2 := toUint8Clamp (clamp b 0 255)]))
              [0..<w])
             [0..<h] data)"

text \<open>The kernel built from the sharpness \<open>s\<close>; its centre \<^verbatim>\<open>4 * s + 1\<close> is computed in doubles.\<close>

definition sharpenKernel :: "real \<Rightarrow> real list" where
  "sharpenKernel s = [0, - s, 0, - s, roundDouble (roundDouble (4 * s) + 1), - s, 0, - s, 0]"









text \<open>The mean of channel \<open>c\<close> (0, 1 or 2 for red, green or blue) over the pixels of a raster.\<close>

definition channelMean :: "nat list \<Rightarrow> nat \<Rightarrow> nat \<Rightarrow> nat \<Rightarrow> real" where
  "channelMean data w h c = sum_list (map (\<lambda>i. real (data ! (i * 4 + c))) [0..<w * h]) / real (w * h)"


section \<open>Page composition\<close>

text \<open>
  \<^verbatim>\<open>finishProcessing\<close> draws on a canvas of 2480 by 3508 pixels. The page is modelled by the
  list of drawing calls in the order they are issued; the label of a variant is the text
  \<^verbatim>\<open>targetSizeInches.toFixed(1)\<close> followed by a double quote, kept here as the number it
  formats. The function is reached with \<open>w \<ge> 1\<close> and \<open>h \<ge> 1\<close> only (the pixel data of an
  empty canvas cannot be read).
\<close>

datatype drawCall =
    FillRect real real real real
  | DrawImage number number number number
  | FillText number number number

datatype pageOutput = CanvasPNG | PagePNG "drawCall list"

definition DPI :: real where "DPI = 300"
definition A4_WIDTH :: real where "A4_WIDTH = 2480"
definition A4_HEIGHT :: real where "A4_HEIGHT = 3508"

text \<open>The number of variants: \<^verbatim>\<open>settings.variantCount || 9\<close>.\<close>

definition variantTotal :: "'a StencilSettings_scheme \<Rightarrow> int" where
  "variantTotal settings = (if variantCount settings = 0 then 9 else variantCount settings)"

text \<open>The grid \<open>(cols, rows)\<close> chosen from the number of variants.\<close>

definition gridLayout :: "int \<Rightarrow> nat \<times> nat" where
  "gridLayout count = (if count = 3 then (1, 3) else if count = 6 then (2, 3) else (3, 3))"

text \<open>
  The size in inches of variant \<open>i\<close>. With \<open>count = 1\<close> the quotient by \<open>count - 1\<close> is
  infinite or \<^verbatim>\<open>NaN\<close>, and its product with \<open>i = 0\<close> is \<^verbatim>\<open>NaN\<close>.
\<close>

definition targetSizeInches :: "'a StencilSettings_scheme \<Rightarrow> int \<Rightarrow> nat \<Rightarrow> number" where
  "targetSizeInches settings count i =
    (if count = 1 then NaN
     else Num (minSize settings
               + ((maxSize settings - minSize settings) / real_of_int (count - 1)) * real i))"

text \<open>The drawing calls of one iteration of the loop over the variants.\<close>

definition drawVariant :: "'a StencilSettings_scheme \<Rightarrow> nat \<Rightarrow> nat \<Rightarrow> int \<Rightarrow> nat \<Rightarrow> drawCall list" where
  "drawVariant settings w h count i =
    (let (cols, rows) = gridLayout count;
         cellW = A4_WIDTH / real cols;
         cellH = A4_HEIGHT / real rows;
         aspect = real w / real h;
         size = targetSizeInches settings count i;
         targetLongestSide = nmul size (Num DPI);
         drawW = (if w \<ge> h then targetLongestSide else nmul targetLongestSide (Num aspect));
         drawH = (if w \<ge> h then ndiv targetLongestSide aspect else targetLongestSide);
         col = i mod cols;
         row = i div cols;
         cx = real col * cellW + cellW / 2;
         cy = real row * cellH + cellH / 2;
         image = DrawImage (nsub (Num cx) (ndiv drawW 2)) (nsub (Num cy) (ndiv drawH 2)) drawW drawH;
         labelY = nadd (nadd (Num cy) (ndiv drawH 2)) (Num 50)
     in if showDimensions settings then
          (if nlt labelY (Num (real (row + 1) * cellH))
           then [image, FillText size (Num cx) labelY]
           else [image, FillText size (Num cx) (Num (real (row + 1) * cellH - 20))])
        else [image])"

definition finishProcessing :: "bool \<Rightarrow> 'a StencilSettings_scheme \<Rightarrow> nat \<Rightarrow> nat \<Rightarrow> pageOutput" where
  "finishProcessing hasContext settings w h =
    (if \<not> hasContext then CanvasPNG
     else (let background = [FillRect 0 0 A4_WIDTH A4_HEIGHT];
               aspect = real w / real h
           in if isMultipleSizes settings then
                (let count = variantTotal settings
                 in PagePNG (fold (\<lambda>i calls. calls @ drawVariant settings w h count i)
                                  [0..<nat count] background))
              else
                (let padding = 100;
                     availW = A4_WIDTH - padding * 2;
                     availH = A4_HEIGHT - padding * 2;
                     drawW = (if availW / aspect > availH then availH * aspect else availW);
                     drawH = (if availW / aspect > availH then availH else availW / aspect)
                 in PagePNG (background @
                      [DrawImage (Num ((A4_WIDTH - drawW) / 2)) (Num ((A4_HEIGHT - drawH) / 2))
                                 (Num drawW) (Num drawH)]))))"




section \<open>Planes of one value\<close>

text \<open>A buffer entry is flat for \<open>c\<close> when it is \<open>c\<close> or \<^verbatim>\<open>NaN\<close>.\<close>

definition flat :: "real \<Rightarrow> number \<Rightarrow> bool" where
  "flat c v = (v = NaN \<or> v = Num c)"

text \<open>A raster of \<open>w\<close> by \<open>h\<close> RGBA pixels that all have the colour \<open>(r, g, b)\<close>.\<close>

definition uniformRaster :: "nat list \<Rightarrow> nat \<Rightarrow> nat \<Rightarrow> nat \<Rightarrow> nat \<Rightarrow> nat \<Rightarrow> bool" where
  "uniformRaster data w h r g b =
    (length data = 4 * (w * h) \<and>
     (\<forall>i<w * h. data ! (i * 4) = r \<and> data ! (i * 4 + 1) = g \<and> data ! (i * 4 + 2) = b))"

text \<open>A buffer entry is in the range \<open>[lo, hi]\<close> when it is a number of that interval.\<close>

definition inRange :: "real \<Rightarrow> real \<Rightarrow> number \<Rightarrow> bool" where
  "inRange lo hi v = (case v of NaN \<Rightarrow> False | Num x \<Rightarrow> lo \<le> x \<and> x \<le> hi)"

section \<open>Rounding to a double\<close>

text \<open>
  Every integer below \<open>2^53\<close> in magnitude is a double, and a real that \<open>k\<close> doublings bring
  into \<open>[2^52, 2^53)\<close> is rounded at the unit \<open>2^-k\<close>.
\<close>

lemma roundHalfEven_of_int: "roundHalfEven (real_of_int z) = z"
  by (simp add: roundHalfEven_def)

lemma normalise_doubling:
  "2 ^ 52 \<le> m * 2 ^ k \<Longrightarrow> m * 2 ^ k < 2 ^ 53 \<Longrightarrow> 0 < m \<Longrightarrow> k \<le> n
   \<Longrightarrow> normalise n m u = (m * 2 ^ k, u / 2 ^ k)"
proof (induction k arbitrary: n m u)
  case 0
  then show ?case by (cases n) simp_all
next
  case (Suc k)
  then obtain n' where n: "n = Suc n'" and kn: "k \<le> n'" by (cases n) simp_all
  have "m * 2 \<le> m * 2 ^ Suc k" using Suc.prems(3) by simp
  then have small: "m < 2 ^ 52" using Suc.prems(2) by simp
  have "normalise n' (2 * m) (u / 2) = (2 * m * 2 ^ k, u / 2 / 2 ^ k)"
    by (rule Suc.IH) (use Suc.prems kn in \<open>simp_all add: mult.assoc mult.left_commute\<close>)
  then show ?case using small n by (simp add: mult.assoc mult.left_commute)
qed

lemma binade_exists:
  fixes x :: real
  assumes "j \<le> 52" "2 ^ (52 - j) \<le> x" "x < 2 ^ 53"
  shows "\<exists>k\<le>j. 2 ^ 52 \<le> x * 2 ^ k \<and> x * 2 ^ k < 2 ^ 53"
  using assms
proof (induction j arbitrary: x)
  case 0
  then show ?case by simp
next
  case (Suc j)
  show ?case
  proof (cases "2 ^ (52 - j) \<le> x")
    case True
    from Suc.IH[OF _ True Suc.prems(3)] Suc.prems(1)
    obtain k where "k \<le> j" "2 ^ 52 \<le> x * 2 ^ k \<and> x * 2 ^ k < 2 ^ 53" by auto
    then show ?thesis using le_SucI by blast
  next
    case False
    have e: "(2::real) ^ (52 - j) = 2 * 2 ^ (52 - Suc j)"
      using Suc.prems(1) by (metis Suc_diff_Suc Suc_le_lessD power_Suc)
    have lo: "2 ^ (52 - j) \<le> 2 * x" using Suc.prems(2) e by simp
    have "2 * x < 2 ^ (52 - j) * 2" using False by simp
    also have "\<dots> \<le> 2 ^ 52 * 2"
      by (intro mult_right_mono power_increasing) simp_all
    finally have hi: "2 * x < 2 ^ 53" by simp
    from Suc.IH[OF _ lo hi] Suc.prems(1)
    obtain k where k: "k \<le> j" "2 ^ 52 \<le> 2 * x * 2 ^ k \<and> 2 * x * 2 ^ k < 2 ^ 53" by auto
    then have "2 ^ 52 \<le> x * 2 ^ Suc k \<and> x * 2 ^ Suc k < 2 ^ 53"
      by (simp add: mult.assoc mult.left_commute mult.commute)
    then show ?thesis using k(1) by (intro exI[of _ "Suc k"]) simp
  qed
qed

lemma roundDouble_of_int:
  assumes "\<bar>z\<bar> < 2 ^ 53"
  shows "roundDouble (real_of_int z) = real_of_int z"
proof (cases "z = 0")
  case True
  then show ?thesis by (simp add: roundDouble_def)
next
  case False
  define x where "x = \<bar>real_of_int z\<bar>"
  have x1: "2 ^ (52 - 52) \<le> x" using False unfolding x_def by simp
  have x2: "x < 2 ^ 53"
  proof -
    have "real_of_int \<bar>z\<bar> < real_of_int (2 ^ 53)" using assms by (simp only: of_int_less_iff)
    then show ?thesis unfolding x_def by simp
  qed
  from binade_exists[OF _ x1 x2]
  obtain k where k: "k \<le> 52" "2 ^ 52 \<le> x * 2 ^ k" "x * 2 ^ k < 2 ^ 53" by auto
  have xpos: "0 < x" using False unfolding x_def by simp
  have "k \<le> 2200" using k(1) by simp
  from normalise_doubling[OF k(2) k(3) xpos this]
  have n: "normalise 2200 x 1 = (x * 2 ^ k, 1 / 2 ^ k)" .
  have "x * 2 ^ k = real_of_int (\<bar>z\<bar> * 2 ^ k)" unfolding x_def by simp
  then have r: "roundHalfEven (x * 2 ^ k) = \<bar>z\<bar> * 2 ^ k"
    by (simp only: roundHalfEven_of_int)
  have "roundDouble (real_of_int z) = sgn (real_of_int z) * real_of_int (\<bar>z\<bar> * 2 ^ k) * (1 / 2 ^ k)"
    using False n r unfolding roundDouble_def x_def[symmetric] by simp
  also have "\<dots> = sgn (real_of_int z) * \<bar>real_of_int z\<bar>" by simp
  also have "\<dots> = real_of_int z" by (simp add: sgn_mult_abs)
  finally show ?thesis .
qed

lemma roundDouble_numeral:
  "numeral k < (2::int) ^ 53 \<Longrightarrow> roundDouble (numeral k) = numeral k"
  "numeral k < (2::int) ^ 53 \<Longrightarrow> roundDouble (- numeral k) = - numeral k"
  using roundDouble_of_int[of "numeral k"] roundDouble_of_int[of "- numeral k"] by simp_all

lemma roundDouble_0_1: "roundDouble 0 = 0" "roundDouble 1 = 1"
  using roundDouble_of_int[of 1] by (simp_all add: roundDouble_def)

lemma roundDouble_eval:
  assumes "2 ^ 52 \<le> \<bar>x\<bar> * 2 ^ k" "\<bar>x\<bar> * 2 ^ k < 2 ^ 53" "k \<le> 2200"
    and "r = sgn x * real_of_int (roundHalfEven (\<bar>x\<bar> * 2 ^ k)) / 2 ^ k"
  shows "roundDouble x = r"
proof -
  have pos: "0 < \<bar>x\<bar>"
  proof (rule ccontr)
    assume "\<not> 0 < \<bar>x\<bar>"
    then have "\<bar>x\<bar> * 2 ^ k = 0" by simp
    then show False using assms(1) by simp
  qed
  then have nz: "x \<noteq> 0" by simp
  from normalise_doubling[OF assms(1) assms(2) pos assms(3)]
  have "normalise 2200 \<bar>x\<bar> 1 = (\<bar>x\<bar> * 2 ^ k, 1 / 2 ^ k)" .
  then show ?thesis using nz assms(4) unfolding roundDouble_def by simp
qed

section \<open>Loops that fill a buffer\<close>

text \<open>
  A \<^verbatim>\<open>for\<close> loop over \<open>0 \<le> k < n\<close> is a \<open>fold\<close> over \<open>[0..<n]\<close>; an invariant indexed by
  the loop counter is established before the loop and carried through every iteration.
\<close>

lemma fold_upt_invariant:
  assumes "P 0 s" and "\<And>k t. k < n \<Longrightarrow> P k t \<Longrightarrow> P (Suc k) (f k t)"
  shows "P n (fold f [0..<n] s)"
  using assms
proof (induction n)
  case 0 then show ?case by simp
next
  case (Suc n)
  have "P n (fold f [0..<n] s)" using Suc by simp
  then have "P (Suc n) (f n (fold f [0..<n] s))" using Suc.prems(2) by simp
  then show ?case by simp
qed

lemma cell_index_less: "x < w \<Longrightarrow> y < h \<Longrightarrow> y * w + x < w * (h::nat)"
proof -
  assume a: "x < w" "y < h"
  have "y * w + x < y * w + w" using a by simp
  also have "\<dots> = (Suc y) * w" by simp
  also have "\<dots> \<le> h * w" using a by (intro mult_le_mono1) simp
  finally show ?thesis by (simp add: mult.commute)
qed

lemma write_loop:
  "fold (\<lambda>i out. out[i := g i]) [0..<n] (replicate n z) = map g [0..<n]"
proof -
  let ?P = "\<lambda>k t. length t = n \<and> (\<forall>j<n. t ! j = (if j < k then g j else z))"
  have "?P n (fold (\<lambda>i out. out[i := g i]) [0..<n] (replicate n z))"
    by (rule fold_upt_invariant[where P="?P"]) (auto simp: nth_list_update less_Suc_eq)
  then show ?thesis by (auto intro: nth_equalityI)
qed

lemma row_write_loop:
  assumes "length d = w * h" "y < h"
  shows "length (fold (\<lambda>x d. d[y * w + x := g x y]) [0..<w] d) = w * h \<and>
         (\<forall>j<w * h. fold (\<lambda>x d. d[y * w + x := g x y]) [0..<w] d ! j =
            (if y * w \<le> j \<and> j < y * w + w then g (j mod w) (j div w) else d ! j))"
proof -
  let ?P = "\<lambda>k t. length t = w * h \<and> (\<forall>j<w * h. t ! j =
            (if y * w \<le> j \<and> j < y * w + k then g (j mod w) (j div w) else d ! j))"
  have "?P w (fold (\<lambda>x d. d[y * w + x := g x y]) [0..<w] d)"
  proof (rule fold_upt_invariant[where P="?P"])
    show "?P 0 d" using assms by (auto simp: not_less[symmetric])
  next
    fix k t assume k: "k < w" and t: "?P k t"
    have lt: "y * w + k < w * h" using k assms(2) by (rule cell_index_less)
    have md: "(y * w + k) mod w = k" "(y * w + k) div w = y" using k by simp_all
    have "(t[y * w + k := g k y]) ! j =
            (if y * w \<le> j \<and> j < y * w + Suc k then g (j mod w) (j div w) else d ! j)"
      if j: "j < w * h" for j
    proof (cases "j = y * w + k")
      case True
      then show ?thesis using t lt md by simp
    next
      case False
      then have "(t[y * w + k := g k y]) ! j = t ! j" by simp
      also have "\<dots> = (if y * w \<le> j \<and> j < y * w + k then g (j mod w) (j div w) else d ! j)"
        using t j by blast
      also have "\<dots> = (if y * w \<le> j \<and> j < y * w + Suc k then g (j mod w) (j div w) else d ! j)"
        using False by (simp add: less_Suc_eq)
      finally show ?thesis .
    qed
    then show "?P (Suc k) (t[y * w + k := g k y])"
      using t by simp
  qed
  then show ?thesis by simp
qed

lemma nested_write_loop:
  assumes "length d = w * h"
  shows "fold (\<lambda>y d. fold (\<lambda>x d. d[y * w + x := g x y]) [0..<w] d) [0..<h] d
         = map (\<lambda>j. g (j mod w) (j div w)) [0..<w * h]"
proof -
  let ?row = "\<lambda>y d. fold (\<lambda>x d. d[y * w + x := g x y]) [0..<w] d"
  let ?P = "\<lambda>k t. length t = w * h \<and> (\<forall>j<w * h. t ! j =
            (if j < k * w then g (j mod w) (j div w) else d ! j))"
  have "?P h (fold ?row [0..<h] d)"
  proof (rule fold_upt_invariant[where P="?P"])
    show "?P 0 d" using assms by simp
  next
    fix k t assume k: "k < h" and t: "?P k t"
    from row_write_loop[of t w h k g] t k
    have r: "length (?row k t) = w * h"
      "\<And>j. j < w * h \<Longrightarrow> ?row k t ! j = (if k * w \<le> j \<and> j < k * w + w then g (j mod w) (j div w) else t ! j)"
      by blast+
    have "?row k t ! j = (if j < Suc k * w then g (j mod w) (j div w) else d ! j)"
      if j: "j < w * h" for j
    proof (cases "j < k * w")
      case True
      then show ?thesis using r(2)[OF j] t j by simp
    next
      case False
      then show ?thesis using r(2)[OF j] t j by simp
    qed
    then show "?P (Suc k) (?row k t)" using r(1) by simp
  qed
  then have "length (fold ?row [0..<h] d) = w * h"
    and "\<And>j. j < w * h \<Longrightarrow> fold ?row [0..<h] d ! j = g (j mod w) (j div w)"
    by (simp_all add: mult.commute)
  then show ?thesis by (intro nth_equalityI) simp_all
qed

lemma morphPass_eq:
  "length dst = w * h \<Longrightarrow>
   morphPass isDilate w h src dst = map (\<lambda>j. morphPixel isDilate src w h (j mod w) (j div w)) [0..<w * h]"
  unfolding morphPass_def by (rule nested_write_loop)

text \<open>Two nested loops over the rows and the columns visit the pixels in index order.\<close>

lemma nested_fold_flat:
  "fold (\<lambda>y. fold (\<lambda>x. B x y) [0..<w]) [0..<h] s = fold (\<lambda>i. B (i mod w) (i div w)) [0..<w * h] s"
proof (induction h)
  case 0
  then show ?case by simp
next
  case (Suc h)
  have 1: "[0..<w * h + w] = [0..<w * h] @ [w * h..<w * h + w]"
    by (rule upt_add_eq_append) simp
  have 2: "[w * h..<w * h + w] = map (\<lambda>x. x + w * h) [0..<w]"
    by (simp add: map_add_upt add.commute)
  have split: "[0..<w * Suc h] = [0..<w * h] @ map (\<lambda>x. x + w * h) [0..<w]"
  proof -
    have "w * Suc h = w * h + w" by simp
    then show ?thesis using 1 2 by (simp only:)
  qed
  have row: "fold (\<lambda>i. B (i mod w) (i div w)) (map (\<lambda>x. x + w * h) [0..<w]) t
             = fold (\<lambda>x. B x h) [0..<w] t" for t
    unfolding fold_map by (rule fold_cong) (auto simp: comp_def)
  have "fold (\<lambda>i. B (i mod w) (i div w)) [0..<w * Suc h] s
        = fold (\<lambda>x. B x h) [0..<w] (fold (\<lambda>i. B (i mod w) (i div w)) [0..<w * h] s)"
    unfolding split by (simp only: fold_append comp_def row)
  also have "\<dots> = fold (\<lambda>x. B x h) [0..<w] (fold (\<lambda>y. fold (\<lambda>x. B x y) [0..<w]) [0..<h] s)"
    using Suc by simp
  also have "\<dots> = fold (\<lambda>y. fold (\<lambda>x. B x y) [0..<w]) [0..<Suc h] s"
    by simp
  finally show ?case by simp
qed



section \<open>The box blur on planes of one value\<close>

lemma flat_rd: "\<forall>v\<in>set xs. flat c v \<Longrightarrow> flat c (rd xs i)"
  by (simp add: rd_def flat_def)

lemma prefill_flat:
  assumes f: "\<And>i. flat c (f i)" and s: "s = NaN \<or> s = Num a"
  shows "fold (\<lambda>i acc. nadd acc (f i)) [0..<k] s = NaN \<or>
         fold (\<lambda>i acc. nadd acc (f i)) [0..<k] s = Num (a + real k * c)"
proof -
  let ?P = "\<lambda>k t. t = NaN \<or> t = Num (a + real k * c)"
  show ?thesis
  proof (rule fold_upt_invariant[where P="?P"])
    show "?P 0 s" using s by simp
  next
    fix k t assume "?P k t"
    then show "?P (Suc k) (nadd t (f k))"
      using f[of k] by (auto simp: flat_def algebra_simps)
  qed
qed

lemma window_flat:
  assumes f: "\<And>i. flat c (f i)" and g: "\<And>i. flat c (g i)"
  shows "fold (\<lambda>i acc. nadd acc (g i)) [0..<Suc r] (fold (\<lambda>i acc. nadd acc (f i)) [0..<r] (Num 0)) = NaN \<or>
         fold (\<lambda>i acc. nadd acc (g i)) [0..<Suc r] (fold (\<lambda>i acc. nadd acc (f i)) [0..<r] (Num 0)) = Num (real (r * 2 + 1) * c)"
proof -
  from prefill_flat[of c f "Num 0" 0 r, OF f]
  have 1: "fold (\<lambda>i acc. nadd acc (f i)) [0..<r] (Num 0) = NaN \<or>
           fold (\<lambda>i acc. nadd acc (f i)) [0..<r] (Num 0) = Num (real r * c)" by simp
  from prefill_flat[of c g _ "real r * c" "Suc r", OF g 1]
  show ?thesis by (simp add: algebra_simps)
qed

lemma slide_flat:
  assumes "s = NaN \<or> s = Num (d * c)" "flat c a" "flat c b" "d \<noteq> 0"
  shows "flat c (ndiv s d)" "nadd (nsub s a) b = NaN \<or> nadd (nsub s a) b = Num (d * c)"
  using assms by (auto simp: flat_def)

lemma blurRow_flat:
  assumes src: "\<forall>v\<in>set source. flat c v"
    and len: "length t = n"
    and pre: "\<forall>j<n. j < y * w \<longrightarrow> flat c (t ! j)"
  shows "length (blurRow source w r y t) = n \<and>
         (\<forall>j<n. j < Suc y * w \<longrightarrow> flat c (blurRow source w r y t ! j))"
proof -
  let ?ws = "real (r * 2 + 1)"
  let ?body = "\<lambda>x (acc, temp).
               (let temp' = temp[y * w + x := ndiv acc ?ws];
                    leavingIndex = nat (max 0 (int x - int r));
                    enteringIndex = min (w - 1) (x + r + 1)
                in (nadd (nsub acc (rd source (y * w + leavingIndex)))
                         (rd source (y * w + enteringIndex)), temp'))"
  let ?P = "\<lambda>k st. case st of (acc, temp) \<Rightarrow>
              (acc = NaN \<or> acc = Num (?ws * c)) \<and> length temp = n \<and>
              (\<forall>j<n. j < y * w + k \<longrightarrow> flat c (temp ! j))"
  let ?s1 = "fold (\<lambda>i acc. nadd acc (rd source (y * w + i))) [0..<r + 1]
               (fold (\<lambda>i acc. nadd acc (rd source (y * w))) [0..<r] (Num 0))"
  have s1: "?s1 = NaN \<or> ?s1 = Num (?ws * c)"
    using window_flat[of c "\<lambda>i. rd source (y * w)" "\<lambda>i. rd source (y * w + i)" r] flat_rd[OF src]
    by simp
  have "?P w (fold ?body [0..<w] (?s1, t))"
  proof (rule fold_upt_invariant[where P="?P"])
    show "?P 0 (?s1, t)" using s1 len pre by simp
  next
    fix k st assume "k < w" and st: "?P k st"
    obtain acc temp where [simp]: "st = (acc, temp)" by (cases st)
    from st have sm: "acc = NaN \<or> acc = Num (?ws * c)" and l: "length temp = n"
      and ok: "\<And>j. j < n \<Longrightarrow> j < y * w + k \<Longrightarrow> flat c (temp ! j)" by simp_all
    have ws: "?ws \<noteq> 0" by simp
    note sl = slide_flat[OF sm flat_rd[OF src] flat_rd[OF src] ws]
    have "flat c (temp[y * w + k := ndiv acc ?ws] ! j)" if "j < n" "j < y * w + Suc k" for j
    proof (cases "j = y * w + k")
      case True
      then show ?thesis using that l sl(1) by simp
    next
      case False
      then show ?thesis using that ok[of j] by simp
    qed
    then show "?P (Suc k) (?body k st)"
      using sl(2) l by (simp add: Let_def)
  qed
  then show ?thesis
    by (simp add: blurRow_def Let_def split_beta)
qed

lemma blurCol_flat:
  assumes tmp: "\<forall>v\<in>set temp. flat c v"
    and len: "length t = w * h"
    and x: "x < w"
    and pre: "\<forall>j<w * h. j mod w < x \<longrightarrow> flat c (t ! j)"
  shows "length (blurCol temp w h r x t) = w * h \<and>
         (\<forall>j<w * h. j mod w < Suc x \<longrightarrow> flat c (blurCol temp w h r x t ! j))"
proof -
  let ?ws = "real (r * 2 + 1)"
  let ?body = "\<lambda>y (acc, target).
               (let target' = target[y * w + x := ndiv acc ?ws];
                    leavingIndex = nat (max 0 (int y - int r));
                    enteringIndex = min (h - 1) (y + r + 1)
                in (nadd (nsub acc (rd temp (leavingIndex * w + x)))
                         (rd temp (enteringIndex * w + x)), target'))"
  let ?P = "\<lambda>k st. case st of (acc, target) \<Rightarrow>
              (acc = NaN \<or> acc = Num (?ws * c)) \<and> length target = w * h \<and>
              (\<forall>j<w * h. j mod w < x \<or> (j mod w = x \<and> j div w < k) \<longrightarrow> flat c (target ! j))"
  let ?s1 = "fold (\<lambda>i acc. nadd acc (rd temp (x + i * w))) [0..<r + 1]
               (fold (\<lambda>i acc. nadd acc (rd temp x)) [0..<r] (Num 0))"
  define res where "res = fold ?body [0..<h] (?s1, t)"
  have eq: "blurCol temp w h r x t = snd res"
    by (simp only: blurCol_def Let_def res_def)
  have s1: "?s1 = NaN \<or> ?s1 = Num (?ws * c)"
    using window_flat[of c "\<lambda>i. rd temp x" "\<lambda>i. rd temp (x + i * w)" r] flat_rd[OF tmp]
    by simp
  have fin: "?P h res" unfolding res_def
  proof (rule fold_upt_invariant[where P="?P"])
    show "?P 0 (?s1, t)" using s1 len pre by simp
  next
    fix k st assume "k < h" and st: "?P k st"
    obtain acc target where [simp]: "st = (acc, target)" by (cases st)
    from st have sm: "acc = NaN \<or> acc = Num (?ws * c)" and l: "length target = w * h"
      and ok: "\<And>j. j < w * h \<Longrightarrow> j mod w < x \<or> (j mod w = x \<and> j div w < k) \<Longrightarrow> flat c (target ! j)"
      by auto
    have ws: "?ws \<noteq> 0" by simp
    note sl = slide_flat[OF sm flat_rd[OF tmp] flat_rd[OF tmp] ws]
    have "flat c (target[k * w + x := ndiv acc ?ws] ! j)"
      if j: "j < w * h" "j mod w < x \<or> (j mod w = x \<and> j div w < Suc k)" for j
    proof (cases "j = k * w + x")
      case True
      then show ?thesis using j l sl(1) by simp
    next
      case False
      have "j div w * w + j mod w = j" by simp
      with False have "\<not> (j mod w = x \<and> j div w = k)" by metis
      with j(2) have "j mod w < x \<or> (j mod w = x \<and> j div w < k)" by (auto simp: less_Suc_eq)
      then show ?thesis using False ok[OF j(1)] by simp
    qed
    then show "?P (Suc k) (?body k st)"
      using sl(2) l by (simp add: Let_def)
  qed
  have "flat c (snd res ! j)" if j: "j < w * h" "j mod w < Suc x" for j
  proof -
    have "j div w < h" using j(1) by (simp add: less_mult_imp_div_less mult.commute)
    then have "j mod w < x \<or> (j mod w = x \<and> j div w < h)" using j(2) by (auto simp: less_Suc_eq)
    then show ?thesis using fin j(1) by (auto simp: split_beta)
  qed
  moreover have "length (snd res) = w * h"
    using fin by (simp add: split_beta)
  ultimately show ?thesis
    unfolding eq by blast
qed

lemma boxBlur_flat:
  assumes src: "\<forall>v\<in>set source. flat c v"
  shows "\<forall>v\<in>set (boxBlur source w h radius). flat c v"
proof (cases "radius < 1")
  case True
  then show ?thesis using src by (simp add: boxBlur_def)
next
  case False
  define temp where "temp = fold (blurRow source w (nat radius)) [0..<h] (replicate (w * h) (Num 0))"
  define target where "target = fold (blurCol temp w h (nat radius)) [0..<w] (replicate (w * h) (Num 0))"
  have eq: "boxBlur source w h radius = target"
    using False by (simp only: boxBlur_def Let_def target_def temp_def if_False)
  let ?P = "\<lambda>k t. length t = w * h \<and> (\<forall>j<w * h. j < k * w \<longrightarrow> flat c (t ! j))"
  have "?P h temp" unfolding temp_def
  proof (rule fold_upt_invariant[where P="?P"])
    show "?P 0 (replicate (w * h) (Num 0))" by simp
  next
    fix k t assume "k < h" and "?P k t"
    then show "?P (Suc k) (blurRow source w (nat radius) k t)"
      using blurRow_flat[OF src, of t "w * h" k w "nat radius"] by simp
  qed
  then have lt: "length temp = w * h" and "\<And>j. j < w * h \<Longrightarrow> flat c (temp ! j)"
    by (simp_all add: mult.commute)
  then have tmp: "\<forall>v\<in>set temp. flat c v"
    by (metis in_set_conv_nth)
  let ?Q = "\<lambda>k t. length t = w * h \<and> (\<forall>j<w * h. j mod w < k \<longrightarrow> flat c (t ! j))"
  have q: "?Q w target" unfolding target_def
  proof (rule fold_upt_invariant[where P="?Q"])
    show "?Q 0 (replicate (w * h) (Num 0))" by simp
  next
    fix k t assume "k < w" and "?Q k t"
    then show "?Q (Suc k) (blurCol temp w h (nat radius) k t)"
      using blurCol_flat[OF tmp, of t w h k "nat radius"] by simp
  qed
  have "flat c (target ! j)" if j: "j < w * h" for j
  proof -
    from j have "0 < w" by (cases w) simp_all
    then have "j mod w < w" by simp
    then show ?thesis using q j by blast
  qed
  moreover have "length target = w * h" using q by simp
  ultimately have "\<forall>v\<in>set target. flat c v"
    by (metis in_set_conv_nth)
  then show ?thesis unfolding eq .
qed

section \<open>Morphology passes write two values\<close>

lemma two_valued_if:
  "(if c then Num 0 else Num 255) = Num 0 \<or> (if c then Num 0 else Num 255) = Num 255"
  "(if c then Num 255 else Num 0) = Num 0 \<or> (if c then Num 255 else Num 0) = Num 255"
  by simp_all

lemma morphPixel_binary: "morphPixel isDilate src w h x y = Num 0 \<or> morphPixel isDilate src w h x y = Num 255"
  unfolding morphPixel_def Let_def
  by (cases isDilate; cases "ngt (rd src (y * w + x)) (Num 128)"; cases "nlt (rd src (y * w + x)) (Num 128)")
     (simp_all only: if_True if_False two_valued_if simp_thms)

lemma morphPass_length: "length dst = w * h \<Longrightarrow> length (morphPass isDilate w h src dst) = w * h"
  by (simp add: morphPass_eq)

lemma morphPass_binary:
  "length dst = w * h \<Longrightarrow> set (morphPass isDilate w h src dst) \<subseteq> {Num 0, Num 255}"
proof -
  assume "length dst = w * h"
  then have "set (morphPass isDilate w h src dst) = (\<lambda>j. morphPixel isDilate src w h (j mod w) (j div w)) ` {0..<w * h}"
    by (simp add: morphPass_eq)
  then show ?thesis using morphPixel_binary[of isDilate src w h] by fastforce
qed

lemma morphLoop_binary:
  assumes "length a = w * h" "length b = w * h" "set a \<subseteq> {Num 0, Num 255}"
  shows "case morphLoop isDilate w h n (a, b) of (a', b') \<Rightarrow>
           length a' = w * h \<and> length b' = w * h \<and>
           set (if (n::nat) mod 2 = 0 then a' else b') \<subseteq> {Num 0, Num 255}"
proof -
  let ?P = "\<lambda>k st. case st of (a', b') \<Rightarrow>
           length a' = w * h \<and> length b' = w * h \<and>
           set (if (k::nat) mod 2 = 0 then a' else b') \<subseteq> {Num 0, Num 255}"
  show ?thesis unfolding morphLoop_def
  proof (rule fold_upt_invariant[where P="?P"])
    show "?P 0 (a, b)" using assms by simp
  next
    fix k st assume "k < n" and st: "?P k st"
    obtain a' b' where [simp]: "st = (a', b')" by (cases st)
    from st have l: "length a' = w * h" "length b' = w * h" by simp_all
    show "?P (Suc k) ((\<lambda>p (bufA, bufB).
             if p mod 2 = 0 then (bufA, morphPass isDilate w h bufA bufB)
             else (morphPass isDilate w h bufB bufA, bufB)) k st)"
    proof (cases "k mod 2 = 0")
      case True
      then have "Suc k mod 2 \<noteq> 0" by presburger
      then show ?thesis using True l morphPass_binary[of b' w h isDilate a'] by (simp add: morphPass_length)
    next
      case False
      then have "Suc k mod 2 = 0" by presburger
      then show ?thesis using False l morphPass_binary[of a' w h isDilate b'] by (simp add: morphPass_length)
    qed
  qed
qed

lemma morphology_binary:
  assumes "length output = w * h" "set output \<subseteq> {Num 0, Num 255}"
  shows "set (morphology output w h thick) \<subseteq> {Num 0, Num 255}"
proof (cases "thick = 0")
  case True
  then show ?thesis using assms by (simp add: morphology_def)
next
  case False
  have "length (replicate (length output) (Num 0)) = w * h" using assms by simp
  from morphLoop_binary[OF assms(1) this assms(2), where isDilate="thick > 0" and n="safePasses thick"]
  show ?thesis using False
    by (auto simp: morphology_def morphLoop_def Let_def split: prod.splits if_splits)
qed

section \<open>Binarization\<close>

lemma lumaPlane_eq:
  "lumaPlane data w h =
     map (\<lambda>i. nadd (nadd (nmul (rdb data (i * 4)) (Num 0.299))
                          (nmul (rdb data (i * 4 + 1)) (Num 0.587)))
                    (nmul (rdb data (i * 4 + 2)) (Num 0.114))) [0..<w * h]"
  unfolding lumaPlane_def by (rule write_loop)

lemma lumaPlane_uniform:
  assumes "uniformRaster data w h r g b"
  shows "lumaPlane data w h = replicate (w * h) (Num (real r * 0.299 + real g * 0.587 + real b * 0.114))"
proof -
  have "nadd (nadd (nmul (rdb data (i * 4)) (Num 0.299)) (nmul (rdb data (i * 4 + 1)) (Num 0.587)))
             (nmul (rdb data (i * 4 + 2)) (Num 0.114))
        = Num (real r * 0.299 + real g * 0.587 + real b * 0.114)" if "i < w * h" for i
    using assms that by (simp add: uniformRaster_def rdb_def)
  then show ?thesis
    unfolding lumaPlane_eq by (intro nth_equalityI) simp_all
qed

lemma adaptiveThreshold_eq:
  "adaptiveThreshold p w h thr =
     map (\<lambda>i. if nlt (rd p i) (nsub (rd (boxBlur p w h 16) i) (Num ((255 - thr) / 5)))
               then Num 0 else Num 255) [0..<w * h]"
  unfolding adaptiveThreshold_def Let_def by (rule write_loop)

lemma differenceOfGaussians_eq:
  "differenceOfGaussians p w h nr thr =
     map (\<lambda>i. if nlt (nsub (rd (boxBlur p w h (fst (dogRadii nr))) i)
                             (rd (boxBlur p w h (snd (dogRadii nr))) i))
                       (Num (- (2 + (255 - thr) / 255 * 10)))
               then Num 0 else Num 255) [0..<w * h]"
  unfolding differenceOfGaussians_def Let_def by (rule write_loop)

text \<open>
  At detail level 3 the products \<^verbatim>\<open>3 * 0.8\<close> and \<^verbatim>\<open>r1 * 2.5\<close> are the doubles just above 2.4
  and 6, so the radii are 3 and 7.
\<close>

lemma dogRadii_doubles:
  "roundDouble (4 / 5) = (3602879701896397 / 4503599627370496)"
  "roundDouble (10808639105689191 / 4503599627370496) = (1351079888211149 / 562949953421312)"
  "roundDouble (6755399441055745 / 1125899906842624) = (6755399441055745 / 1125899906842624)"
  subgoal by (rule roundDouble_eval[where k = 53]) (simp_all add: roundHalfEven_def)
  subgoal by (rule roundDouble_eval[where k = 51]) (simp_all add: roundHalfEven_def)
  subgoal by (rule roundDouble_eval[where k = 50]) (simp_all add: roundHalfEven_def)
  done

lemma dogRadii_3: "dogRadii 3 = (3, 7)"
  by (simp add: dogRadii_def Let_def dogRadii_doubles)

lemma nlt_flat_bias:
  assumes "flat c a" "flat c b" "0 \<le> bias"
  shows "\<not> nlt a (nsub b (Num bias))"
  using assms by (auto simp: flat_def)

lemma nlt_flat_cutoff:
  assumes "flat c a" "flat c b" "0 < cutoff"
  shows "\<not> nlt (nsub a b) (Num (- cutoff))"
  using assms by (auto simp: flat_def)

lemma adaptiveThreshold_flat:
  assumes p: "\<forall>v\<in>set p. flat c v" and thr: "thr \<le> 255"
  shows "adaptiveThreshold p w h thr = replicate (w * h) (Num 255)"
proof -
  have b: "0 \<le> (255 - thr) / 5" using thr by simp
  have "\<not> nlt (rd p i) (nsub (rd (boxBlur p w h 16) i) (Num ((255 - thr) / 5)))" for i
    by (rule nlt_flat_bias[OF flat_rd[OF p] flat_rd[OF boxBlur_flat[OF p]] b])
  then show ?thesis
    unfolding adaptiveThreshold_eq by (intro nth_equalityI) simp_all
qed

lemma differenceOfGaussians_flat:
  assumes p: "\<forall>v\<in>set p. flat c v" and thr: "thr \<le> 255"
  shows "differenceOfGaussians p w h nr thr = replicate (w * h) (Num 255)"
proof -
  have "0 \<le> (255 - thr) / 255 * 10" using thr by (intro mult_nonneg_nonneg divide_nonneg_nonneg) simp_all
  then have b: "0 < 2 + (255 - thr) / 255 * 10" by linarith
  have "\<not> nlt (nsub (rd (boxBlur p w h r1) i) (rd (boxBlur p w h r2) i))
               (Num (- (2 + (255 - thr) / 255 * 10)))" for i r1 r2
    by (rule nlt_flat_cutoff[OF flat_rd[OF boxBlur_flat[OF p]] flat_rd[OF boxBlur_flat[OF p]] b])
  then show ?thesis
    unfolding differenceOfGaussians_eq by (intro nth_equalityI) simp_all
qed

lemma sharpen_flat:
  assumes "flat c l" "flat c bl"
  shows "flat (min 255 (max 0 c)) (nmin (Num 255) (nmax (Num 0) (nadd l (nmul (nsub l bl) (Num s)))))"
  using assms by (auto simp: flat_def)

lemma detailFilter_flat:
  assumes l: "\<forall>v\<in>set luma. flat c v"
  shows "\<exists>c'. \<forall>v\<in>set (detailFilter luma w h m nr). flat c' v"
proof (cases "nr < 0")
  case True
  have eq: "detailFilter luma w h m nr =
     map (\<lambda>i. nmin (Num 255) (nmax (Num 0)
            (nadd (rd luma i) (nmul (nsub (rd luma i) (rd (boxBlur luma w h 1) i))
               (Num (real_of_int \<bar>nr\<bar> * 0.5)))))) [0..<w * h]"
    using True unfolding detailFilter_def Let_def by (simp only: if_True write_loop)
  have "\<forall>v\<in>set (detailFilter luma w h m nr). flat (min 255 (max 0 c)) v"
    unfolding eq using sharpen_flat[OF flat_rd[OF l] flat_rd[OF boxBlur_flat[OF l]]]
    by (auto simp del: nmin.simps nmax.simps nadd.simps nmul.simps nsub.simps)
  then show ?thesis ..
next
  case False
  then have "detailFilter luma w h m nr = luma \<or> detailFilter luma w h m nr = boxBlur luma w h nr"
    by (simp add: detailFilter_def)
  then show ?thesis using l boxBlur_flat[OF l] by metis
qed

lemma replicate_flat: "\<forall>v\<in>set (replicate n (Num c)). flat c v"
  by (simp add: flat_def)

lemma map_two_valued: "set (map (\<lambda>i. if c i then Num 0 else Num 255) xs) \<subseteq> {Num 0, Num 255}"
  by (induction xs) simp_all

lemma binarize_binary: "set (binarize luma w h m nr thr) \<subseteq> {Num 0, Num 255}"
proof (cases "m = SOLID")
  case True
  then have "binarize luma w h m nr thr = adaptiveThreshold (detailFilter luma w h m nr) w h thr"
    by (simp add: binarize_def)
  then show ?thesis unfolding adaptiveThreshold_eq by (simp only: map_two_valued)
next
  case False
  then have "binarize luma w h m nr thr = differenceOfGaussians (detailFilter luma w h m nr) w h nr thr"
    by (simp add: binarize_def)
  then show ?thesis unfolding differenceOfGaussians_eq by (simp only: map_two_valued)
qed

lemma binarize_length: "length (binarize luma w h m nr thr) = w * h"
proof (cases "m = SOLID")
  case True
  then have "binarize luma w h m nr thr = adaptiveThreshold (detailFilter luma w h m nr) w h thr"
    by (simp add: binarize_def)
  then show ?thesis unfolding adaptiveThreshold_eq by (simp only: length_map length_upt diff_zero)
next
  case False
  then have "binarize luma w h m nr thr = differenceOfGaussians (detailFilter luma w h m nr) w h nr thr"
    by (simp add: binarize_def)
  then show ?thesis unfolding differenceOfGaussians_eq by (simp only: length_map length_upt diff_zero)
qed

lemma concat_replicate_nth:
  "i < n \<Longrightarrow> c < 4 \<Longrightarrow> concat (replicate n [r, g, b, a]) ! (i * 4 + c) = [r, g, b, a] ! c"
proof (induction n arbitrary: i)
  case 0
  then show ?case by simp
next
  case (Suc n)
  show ?case
  proof (cases i)
    case 0
    have "c = 0 \<or> c = 1 \<or> c = 2 \<or> c = 3" using Suc.prems(2) by linarith
    then show ?thesis using 0 by auto
  next
    case (Suc i')
    then have "i' < n" using Suc.prems(1) by simp
    from Suc.IH[OF this Suc.prems(2)]
    have ih: "concat (replicate n [r, g, b, a]) ! (i' * 4 + c) = [r, g, b, a] ! c" .
    have "i * 4 + c = 4 + (i' * 4 + c)" using Suc by simp
    then have "concat (replicate (Suc n) [r, g, b, a]) ! (i * 4 + c)
               = ([r, g, b, a] @ concat (replicate n [r, g, b, a])) ! (4 + (i' * 4 + c))" by simp
    also have "\<dots> = concat (replicate n [r, g, b, a]) ! (i' * 4 + c)"
      using nth_append_length_plus[of "[r, g, b, a]" "concat (replicate n [r, g, b, a])" "i' * 4 + c"]
      by simp
    finally show ?thesis using ih by simp
  qed
qed

lemma uniformRaster_replicate:
  "uniformRaster (concat (replicate (w * h) [r, g, b, a])) w h r g b"
proof -
  have "length (concat (replicate n [r, g, b, a])) = 4 * n" for n
    by (induction n) simp_all
  moreover have "concat (replicate (w * h) [r, g, b, a]) ! (i * 4) = r
     \<and> concat (replicate (w * h) [r, g, b, a]) ! (i * 4 + 1) = g
     \<and> concat (replicate (w * h) [r, g, b, a]) ! (i * 4 + 2) = b" if "i < w * h" for i
    using concat_replicate_nth[OF that, of 0 r g b a] concat_replicate_nth[OF that, of 1 r g b a]
      concat_replicate_nth[OF that, of 2 r g b a] by simp
  ultimately show ?thesis unfolding uniformRaster_def by blast
qed

section \<open>Uniform images\<close>

text \<open>
  Claim C3. In SOLID mode with detail level 0 and a threshold in \<open>[0, 255]\<close>, the adaptive
  threshold of a raster whose pixels all have one RGB value marks no pixel as ink: the
  output map is 255 everywhere. Wherever the local mean is a number it is the luma itself,
  the bias is not negative, and the strict comparison fails; where the blur has read
  outside the plane the local mean is \<^verbatim>\<open>NaN\<close> and the comparison fails as well.
\<close>

theorem solid_uniform_gray_all_blank:
  assumes "uniformRaster data w h r g b" "0 \<le> thr" "thr \<le> 255"
  shows "binarize (lumaPlane data w h) w h SOLID 0 thr = replicate (w * h) (Num 255)"
proof -
  have "detailFilter (lumaPlane data w h) w h SOLID 0 = lumaPlane data w h"
    by (simp add: detailFilter_def)
  moreover have "\<forall>v\<in>set (lumaPlane data w h). flat (real r * 0.299 + real g * 0.587 + real b * 0.114) v"
    unfolding lumaPlane_uniform[OF assms(1)] by (rule replicate_flat)
  ultimately show ?thesis
    using adaptiveThreshold_flat[OF _ assms(3)] by (simp add: binarize_def)
qed

theorem solid_uniform_gray_all_blank_witness:
  "uniformRaster (concat (replicate (100 * 100) [128, 128, 128, 255])) 100 100 128 128 128 \<and>
   (0::real) \<le> 223 \<and> (223::real) \<le> 255 \<and>
   binarize (lumaPlane (concat (replicate (100 * 100) [128, 128, 128, 255])) 100 100) 100 100 SOLID 0 223
     = replicate (100 * 100) (Num 255)"
proof -
  have u: "uniformRaster (concat (replicate (100 * 100) [128, 128, 128, 255])) 100 100 128 128 128"
    by (rule uniformRaster_replicate)
  have a: "(0::real) \<le> 223" and b: "(223::real) \<le> 255" by simp_all
  from solid_uniform_gray_all_blank[OF u a b] u a b show ?thesis by blast
qed

text \<open>
  Claim C4. In HOLLOW mode, for a raster of one colour, every threshold in \<open>[0, 255]\<close> and
  every detail level, the difference of Gaussians marks no pixel as ink: the output map is
  255 everywhere.
\<close>

theorem hollow_flat_all_blank:
  assumes "uniformRaster data w h r g b" "0 \<le> thr" "thr \<le> 255"
  shows "binarize (lumaPlane data w h) w h HOLLOW nr thr = replicate (w * h) (Num 255)"
proof -
  have "\<forall>v\<in>set (lumaPlane data w h). flat (real r * 0.299 + real g * 0.587 + real b * 0.114) v"
    unfolding lumaPlane_uniform[OF assms(1)] by (rule replicate_flat)
  from detailFilter_flat[OF this]
  obtain c' where "\<forall>v\<in>set (detailFilter (lumaPlane data w h) w h HOLLOW nr). flat c' v" by blast
  from differenceOfGaussians_flat[OF this assms(3)]
  show ?thesis by (simp add: binarize_def)
qed

theorem hollow_flat_all_blank_witness:
  "uniformRaster (concat (replicate (100 * 100) [200, 30, 30, 255])) 100 100 200 30 30 \<and>
   (0::real) \<le> 100 \<and> (100::real) \<le> 255 \<and>
   binarize (lumaPlane (concat (replicate (100 * 100) [200, 30, 30, 255])) 100 100) 100 100 HOLLOW (- 2) 100
     = replicate (100 * 100) (Num 255)"
proof -
  have u: "uniformRaster (concat (replicate (100 * 100) [200, 30, 30, 255])) 100 100 200 30 30"
    by (rule uniformRaster_replicate)
  have a: "(0::real) \<le> 100" and b: "(100::real) \<le> 255" by simp_all
  from hollow_flat_all_blank[OF u a b] u a b show ?thesis by blast
qed

section \<open>The cap on the number of passes\<close>

text \<open>
  With a source and a destination of \<open>w * h\<close> cells, the two buffers of the loop hold the
  iterates of one pass: after \<open>n\<close> passes the buffer that is returned is the \<open>n\<close>-th
  iterate on the input map.
\<close>

lemma morphStep_pass:
  "length dst = w * h \<Longrightarrow> morphPass isDilate w h src dst = morphStep isDilate w h src"
  by (simp add: morphStep_def morphPass_eq)

lemma morphStep_length: "length (morphStep isDilate w h src) = w * h"
  by (simp add: morphStep_def morphPass_eq)

lemma morphLoop_passes:
  assumes "length a = w * h" "length b = w * h"
  shows "case morphLoop isDilate w h n (a, b) of (a', b') \<Rightarrow>
           length a' = w * h \<and> length b' = w * h \<and>
           (if (n::nat) mod 2 = 0 then a' else b') = (morphStep isDilate w h ^^ n) a"
proof -
  let ?P = "\<lambda>k st. case st of (a', b') \<Rightarrow>
           length a' = w * h \<and> length b' = w * h \<and>
           (if (k::nat) mod 2 = 0 then a' else b') = (morphStep isDilate w h ^^ k) a"
  show ?thesis unfolding morphLoop_def
  proof (rule fold_upt_invariant[where P="?P"])
    show "?P 0 (a, b)" using assms by simp
  next
    fix k st assume "k < n" and st: "?P k st"
    obtain a' b' where [simp]: "st = (a', b')" by (cases st)
    from st have l: "length a' = w * h" "length b' = w * h" by simp_all
    show "?P (Suc k) ((\<lambda>p (bufA, bufB).
             if p mod 2 = 0 then (bufA, morphPass isDilate w h bufA bufB)
             else (morphPass isDilate w h bufB bufA, bufB)) k st)"
    proof (cases "k mod 2 = 0")
      case True
      then have "Suc k mod 2 \<noteq> 0" by presburger
      then show ?thesis using True l st by (simp add: morphStep_length morphStep_pass)
    next
      case False
      then have "Suc k mod 2 = 0" by presburger
      then show ?thesis using False l st by (simp add: morphStep_length morphStep_pass)
    qed
  qed
qed

lemma morphology_passes:
  assumes "length bufA = w * h"
  shows "morphology bufA w h thick = (morphStep (thick > 0) w h ^^ nat (min \<bar>thick\<bar> 15)) bufA"
proof (cases "thick = 0")
  case True
  then show ?thesis by (simp add: morphology_def)
next
  case False
  have "length (replicate (length bufA) (Num 0)) = w * h" using assms by simp
  from morphLoop_passes[OF assms this, where isDilate="thick > 0" and n="safePasses thick"]
  show ?thesis using False
    by (auto simp: morphology_def safePasses_def Let_def split: prod.splits if_splits)
qed

lemma ink_spreads_15_cells:
  "morphology (Num 0 # replicate 16 (Num 255)) 17 1 20 ! 15 = Num 0"
  "morphology (Num 0 # replicate 16 (Num 255)) 17 1 20 ! 16 = Num 255"
  "morphology (Num 0 # replicate 16 (Num 255)) 17 1 14 ! 15 = Num 255"
  by code_simp+

text \<open>
  Claim C6. The number of passes is \<open>min(|thickness|, 15)\<close>: on a map of \<open>w * h\<close> cells the
  morphology output is the result of exactly that many dilation passes (thickness above 0)
  or erosion passes (below 0). So thickness 20 gives the same morphology output as
  thickness 15, on every map, and so does the whole stencil path when the two settings
  differ in the thickness only.
\<close>

theorem thickness_cap_15_passes:
  "(length bufA = w * h \<longrightarrow>
      morphology bufA w h thick = (morphStep (thick > 0) w h ^^ nat (min \<bar>thick\<bar> 15)) bufA) \<and>
   morphology bufA w h 20 = morphology bufA w h 15 \<and>
   finalMap data w h (settings\<lparr>thickness := 20\<rparr>) = finalMap data w h (settings\<lparr>thickness := 15\<rparr>)"
  using morphology_passes[of bufA w h thick]
  by (simp add: finalMap_def morphology_def safePasses_def)

text \<open>
  On a row of 17 cells with ink in the first cell only, thickness 20 spreads the ink to
  the cell at index 15 and not to the one at index 16; thickness 14 does not reach index 15.
\<close>

theorem thickness_cap_15_passes_witness:
  "length (Num 0 # replicate 16 (Num 255)) = 17 * 1 \<and>
   morphology (Num 0 # replicate 16 (Num 255)) 17 1 20
     = (morphStep True 17 1 ^^ 15) (Num 0 # replicate 16 (Num 255)) \<and>
   morphology (Num 0 # replicate 16 (Num 255)) 17 1 20 ! 15 = Num 0 \<and>
   morphology (Num 0 # replicate 16 (Num 255)) 17 1 20 ! 16 = Num 255 \<and>
   morphology (Num 0 # replicate 16 (Num 255)) 17 1 14 ! 15 = Num 255"
proof -
  have len: "length (Num 0 # replicate 16 (Num 255)) = 17 * 1" by simp
  have n: "nat (min \<bar>20::int\<bar> 15) = 15" "((20::int) > 0) = True" by simp_all
  from thickness_cap_15_passes[where bufA = "Num 0 # replicate 16 (Num 255)" and w = 17 and h = 1 and thick = 20]
  have "length (Num 0 # replicate 16 (Num 255)) = 17 * 1 \<longrightarrow>
      morphology (Num 0 # replicate 16 (Num 255)) 17 1 20
        = (morphStep True 17 1 ^^ 15) (Num 0 # replicate 16 (Num 255))"
    unfolding n by (rule conjunct1)
  then have "morphology (Num 0 # replicate 16 (Num 255)) 17 1 20
        = (morphStep True 17 1 ^^ 15) (Num 0 # replicate 16 (Num 255))"
    using len by (rule mp)
  then show ?thesis using len ink_spreads_15_cells by blast
qed

section \<open>Threshold\<close>

text \<open>
  Claim C8. In SOLID mode, with the plane and the detail level fixed, a pixel that the
  adaptive threshold marks as ink (0) at threshold \<open>t1\<close> is marked as ink at every
  threshold \<open>t2 \<ge> t1\<close>.
\<close>

theorem solid_ink_monotone_in_threshold:
  assumes "t1 \<le> t2" "i < w * h" "binarize luma w h SOLID nr t1 ! i = Num 0"
  shows "binarize luma w h SOLID nr t2 ! i = Num 0"
proof -
  define p where "p = detailFilter luma w h SOLID nr"
  define a where "a = rd p i"
  define b where "b = rd (boxBlur p w h 16) i"
  have 1: "nlt a (nsub b (Num ((255 - t1) / 5)))"
    using assms(2,3) unfolding binarize_def Let_def adaptiveThreshold_eq a_def b_def p_def
    by (simp split: if_splits)
  have le: "(255 - t2) / 5 \<le> (255 - t1) / 5" using assms(1) by (simp add: divide_right_mono)
  have "nlt a (nsub b (Num ((255 - t2) / 5)))"
  proof (cases a; cases b)
    fix x y assume ab: "a = Num x" "b = Num y"
    with 1 have "x < y - (255 - t1) / 5" by simp
    with le have "x < y - (255 - t2) / 5" by linarith
    then show ?thesis using ab by simp
  qed (use 1 in simp_all)
  then show ?thesis
    using assms(2) unfolding binarize_def Let_def adaptiveThreshold_eq a_def b_def p_def
    by simp
qed

text \<open>A plane of one column and 33 rows, dark at the top: its first pixel is ink at
  threshold 200.\<close>

lemma ink_example:
  "binarize (Num 0 # replicate 32 (Num 255)) 1 33 SOLID 0 200 ! 0 = Num 0"
  by code_simp

theorem solid_ink_monotone_in_threshold_witness:
  "(200::real) \<le> 255 \<and> (0::nat) < 1 * 33 \<and>
   binarize (Num 0 # replicate 32 (Num 255)) 1 33 SOLID 0 200 ! 0 = Num 0 \<and>
   binarize (Num 0 # replicate 32 (Num 255)) 1 33 SOLID 0 255 ! 0 = Num 0"
proof -
  have h1: "(200::real) \<le> 255" and h2: "(0::nat) < 1 * 33" by simp_all
  from solid_ink_monotone_in_threshold[OF h1 h2 ink_example] h1 h2 ink_example
  show ?thesis by blast
qed

section \<open>Two-valued maps\<close>

text \<open>
  Claim C9. The binarization output holds only the values 0 and 255, every morphology pass
  writes only 0 or 255 to each pixel of its destination buffer, and so the final map of
  the SOLID and HOLLOW paths holds only 0 and 255.
\<close>

theorem binary_domain_invariant:
  "set (binarize luma w h m nr thr) \<subseteq> {Num 0, Num 255} \<and>
   (length dst = w * h \<longrightarrow> set (morphPass isDilate w h src dst) \<subseteq> {Num 0, Num 255}) \<and>
   set (finalMap data w h settings) \<subseteq> {Num 0, Num 255}"
proof -
  have "set (finalMap data w h settings) \<subseteq> {Num 0, Num 255}"
    unfolding finalMap_def Let_def
    by (rule morphology_binary[OF binarize_length binarize_binary])
  then show ?thesis using binarize_binary morphPass_binary by blast
qed

theorem binary_domain_invariant_witness:
  "set (binarize [Num 10, Num 200] 2 1 HOLLOW 0 223) \<subseteq> {Num 0, Num 255} \<and>
   length [Num 0, Num 0] = 2 * 1 \<and>
   set (morphPass True 2 1 [Num 0, Num 255] [Num 0, Num 0]) \<subseteq> {Num 0, Num 255} \<and>
   set (finalMap [10, 10, 10, 255, 200, 200, 200, 255] 2 1
          \<lparr>threshold = 223, thickness = 2, noiseReduction = 0, mode = HOLLOW, isMirrored = False,
           isMultipleSizes = False, variantCount = 9, minSize = 1.5, maxSize = 3.5,
           showDimensions = True, saturation = None, contrast = None, brightness = None,
           sharpness = None\<rparr>) \<subseteq> {Num 0, Num 255}"
  using binary_domain_invariant[of "[Num 10, Num 200]" 2 1 HOLLOW 0 223 "[Num 0, Num 0]" True
          "[Num 0, Num 255]" "[10, 10, 10, 255, 200, 200, 200, 255]"
          "\<lparr>threshold = 223, thickness = 2, noiseReduction = 0, mode = HOLLOW, isMirrored = False,
           isMultipleSizes = False, variantCount = 9, minSize = 1.5, maxSize = 3.5,
           showDimensions = True, saturation = None, contrast = None, brightness = None,
           sharpness = None\<rparr>"]
  by simp

text \<open>
  Claim C10. One dilation pass sends every pixel that is ink before the pass (value below
  128) to ink (0), and one erosion pass sends every pixel that is blank before the pass
  (value at least 128) to blank (255).
\<close>

theorem morphology_pass_monotone:
  assumes "length src = w * h" "length dst = w * h"
  shows "(\<forall>i<w * h. nlt (src ! i) (Num 128) \<longrightarrow> morphPass True w h src dst ! i = Num 0) \<and>
         (\<forall>i<w * h. (\<exists>v. src ! i = Num v \<and> 128 \<le> v) \<longrightarrow> morphPass False w h src dst ! i = Num 255)"
proof (intro conjI allI impI)
  fix i assume i: "i < w * h" and ink: "nlt (src ! i) (Num 128)"
  have "(i div w) * w + i mod w = i" by simp
  moreover obtain v where "src ! i = Num v" "v < 128" using ink by (cases "src ! i") auto
  ultimately show "morphPass True w h src dst ! i = Num 0" using assms i
    by (simp add: morphPass_eq morphPixel_def rd_def)
next
  fix i assume i: "i < w * h" and blank: "\<exists>v. src ! i = Num v \<and> 128 \<le> v"
  have "(i div w) * w + i mod w = i" by simp
  then show "morphPass False w h src dst ! i = Num 255" using assms i blank
    by (auto simp add: morphPass_eq morphPixel_def rd_def)
qed

theorem morphology_pass_monotone_witness:
  "length [Num 0, Num 255] = 2 * 1 \<and> length [Num 0, Num 0] = 2 * 1 \<and>
   (0::nat) < 2 * 1 \<and> nlt ([Num 0, Num 255] ! 0) (Num 128) \<and>
   morphPass True 2 1 [Num 0, Num 255] [Num 0, Num 0] ! 0 = Num 0 \<and>
   (1::nat) < 2 * 1 \<and> (\<exists>v. [Num 0, Num 255] ! 1 = Num v \<and> 128 \<le> v) \<and>
   morphPass False 2 1 [Num 0, Num 255] [Num 0, Num 0] ! 1 = Num 255"
proof -
  have l: "length [Num 0, Num 255] = 2 * 1" "length [Num 0, Num 0] = 2 * 1" by simp_all
  have a: "(0::nat) < 2 * 1" "nlt ([Num 0, Num 255] ! 0) (Num 128)" by simp_all
  have b: "(1::nat) < 2 * 1" "\<exists>v. [Num 0, Num 255] ! 1 = Num v \<and> 128 \<le> v" by simp_all
  from morphology_pass_monotone[OF l] a b l show ?thesis by blast
qed

section \<open>The box blur on planes wider than the window\<close>

text \<open>
  When the radius is smaller than the width and the height, every read of the two passes
  stays in its row or column, the accumulator is the sum of the window clamped to the
  edges, and every output value lies between the bounds of the input values. A radius
  below 1 returns the input.
\<close>

lemma inRange_Num: "inRange lo hi v \<Longrightarrow> \<exists>x. v = Num x \<and> lo \<le> x \<and> x \<le> hi"
  by (cases v) (simp_all add: inRange_def)

lemma fold_nadd_sum:
  assumes "\<And>i. i < k \<Longrightarrow> A i = Num (a i)"
  shows "fold (\<lambda>i acc. nadd acc (A i)) [0..<k] (Num s) = Num (s + sum a {0..<k})"
  using assms
proof (induction k)
  case 0
  then show ?case by simp
next
  case (Suc k)
  then have "fold (\<lambda>i acc. nadd acc (A i)) [0..<k] (Num s) = Num (s + sum a {0..<k})" by simp
  moreover have "A k = Num (a k)" using Suc.prems by simp
  ultimately show ?case by simp
qed

lemma window_prefill:
  fixes a :: "nat \<Rightarrow> real"
  assumes A: "\<And>i. i < n \<Longrightarrow> A i = Num (a i)" and r: "r < n"
  shows "fold (\<lambda>i acc. nadd acc (A i)) [0..<r + 1] (fold (\<lambda>i acc. nadd acc (A 0)) [0..<r] (Num 0))
         = Num (sum (\<lambda>m. a (min (n - 1) (m - r))) {0..<2 * r + 1})"
proof -
  let ?g = "\<lambda>m. a (min (n - 1) (m - r))"
  have 0: "A 0 = Num (a 0)" using A[of 0] r by simp
  have 1: "fold (\<lambda>i acc. nadd acc (A 0)) [0..<r] (Num 0) = Num (0 + sum (\<lambda>i. a 0) {0..<r})"
    by (rule fold_nadd_sum) (simp add: 0)
  have 2: "fold (\<lambda>i acc. nadd acc (A i)) [0..<r + 1] (Num (0 + sum (\<lambda>i. a 0) {0..<r}))
           = Num (0 + sum (\<lambda>i. a 0) {0..<r} + sum a {0..<r + 1})"
    by (rule fold_nadd_sum) (use A r in simp)
  have s1: "sum ?g {0..<r} = sum (\<lambda>i. a 0) {0..<r}"
    by (rule sum.cong) simp_all
  have "2 * r + 1 = (r + 1) + r" by simp
  then have "sum ?g {r..<2 * r + 1} = sum ?g {0 + r..<(r + 1) + r}" by (simp only: add_0)
  also have "\<dots> = sum (\<lambda>i. ?g (i + r)) {0..<r + 1}" by (rule sum.shift_bounds_nat_ivl)
  also have "\<dots> = sum a {0..<r + 1}"
    by (rule sum.cong) (use r in auto)
  finally have s2: "sum ?g {r..<2 * r + 1} = sum a {0..<r + 1}" .
  have "sum ?g {0..<2 * r + 1} = sum ?g {0..<r} + sum ?g {r..<2 * r + 1}"
    by (rule sum.atLeastLessThan_concat[symmetric]) simp_all
  then have "sum ?g {0..<2 * r + 1} = sum (\<lambda>i. a 0) {0..<r} + sum a {0..<r + 1}"
    using s1 s2 by simp
  then show ?thesis unfolding 1 2 by simp
qed

lemma window_slide:
  fixes a :: "nat \<Rightarrow> real"
  assumes A: "\<And>i. i < n \<Longrightarrow> A i = Num (a i)" and k: "k < n"
  shows "nadd (nsub (Num (sum (\<lambda>m. a (min (n - 1) (m - r))) {k..<k + (2 * r + 1)}))
                    (A (nat (max 0 (int k - int r)))))
              (A (min (n - 1) (k + r + 1)))
         = Num (sum (\<lambda>m. a (min (n - 1) (m - r))) {Suc k..<Suc k + (2 * r + 1)})"
proof -
  let ?g = "\<lambda>m. a (min (n - 1) (m - r))"
  have lv: "nat (max 0 (int k - int r)) = k - r" by simp
  have "k - r < n" using k by simp
  then have 1: "A (k - r) = Num (a (k - r))" by (rule A)
  have "min (n - 1) (k + r + 1) < n" using k by simp
  then have 2: "A (min (n - 1) (k + r + 1)) = Num (a (min (n - 1) (k + r + 1)))" by (rule A)
  have "k - r \<le> n - 1" using k by simp
  then have "min (n - 1) (k - r) = k - r" by simp
  then have gk: "?g k = a (k - r)" by simp
  have ge: "?g (k + (2 * r + 1)) = a (min (n - 1) (k + r + 1))"
  proof -
    have "k + (2 * r + 1) - r = k + r + 1" by simp
    then show ?thesis by (simp only:)
  qed
  have "sum ?g {k..<Suc k + (2 * r + 1)} = ?g k + sum ?g {Suc k..<Suc k + (2 * r + 1)}"
    by (rule sum.atLeast_Suc_lessThan) simp
  moreover have "sum ?g {k..<Suc k + (2 * r + 1)} = sum ?g {k..<k + (2 * r + 1)} + ?g (k + (2 * r + 1))"
    by simp
  ultimately have "sum ?g {Suc k..<Suc k + (2 * r + 1)}
                   = sum ?g {k..<k + (2 * r + 1)} - ?g k + ?g (k + (2 * r + 1))" by linarith
  then show ?thesis unfolding lv 1 2 gk ge by simp
qed

lemma window_mean_inRange:
  fixes g :: "nat \<Rightarrow> real"
  assumes "\<And>m. lo \<le> g m \<and> g m \<le> hi"
  shows "inRange lo hi (ndiv (Num (sum g {k..<k + (2 * r + 1)})) (real (r * 2 + 1)))"
proof -
  define S where "S = sum g {k..<k + (2 * r + 1)}"
  define d where "d = real (r * 2 + 1)"
  have c: "real (card {k..<k + (2 * r + 1)}) = d" unfolding d_def by (simp add: mult.commute)
  have "S \<le> of_nat (card {k..<k + (2 * r + 1)}) * hi"
    unfolding S_def by (rule sum_bounded_above) (use assms in simp)
  then have up: "S \<le> d * hi" unfolding c .
  have "of_nat (card {k..<k + (2 * r + 1)}) * lo \<le> S"
    unfolding S_def by (rule sum_bounded_below) (use assms in simp)
  then have dn: "d * lo \<le> S" unfolding c .
  have pos: "0 < d" unfolding d_def by simp
  have "lo \<le> S / d" using dn pos by (simp add: pos_le_divide_eq mult.commute)
  moreover have "S / d \<le> hi" using up pos by (simp add: pos_divide_le_eq mult.commute)
  ultimately have "inRange lo hi (ndiv (Num S) d)" by (simp add: inRange_def)
  then show ?thesis unfolding S_def d_def .
qed

lemma inRange_rd:
  assumes "\<forall>v\<in>set xs. inRange lo hi v" "i < length xs"
  shows "rd xs i = Num (case rd xs i of Num x \<Rightarrow> x | NaN \<Rightarrow> 0)"
    "lo \<le> (case rd xs i of Num x \<Rightarrow> x | NaN \<Rightarrow> 0)" "(case rd xs i of Num x \<Rightarrow> x | NaN \<Rightarrow> 0) \<le> hi"
proof -
  have "inRange lo hi (rd xs i)" using assms by (simp add: rd_def)
  then obtain x where "rd xs i = Num x" "lo \<le> x" "x \<le> hi" using inRange_Num by blast
  then show "rd xs i = Num (case rd xs i of Num x \<Rightarrow> x | NaN \<Rightarrow> 0)"
    "lo \<le> (case rd xs i of Num x \<Rightarrow> x | NaN \<Rightarrow> 0)" "(case rd xs i of Num x \<Rightarrow> x | NaN \<Rightarrow> 0) \<le> hi"
    by simp_all
qed

lemma blurRow_range:
  assumes len: "length source = w * h" and src: "\<forall>v\<in>set source. inRange lo hi v"
    and y: "y < h" and r: "r < w"
    and lt: "length t = w * h"
    and pre: "\<forall>j<w * h. j < y * w \<longrightarrow> inRange lo hi (t ! j)"
  shows "length (blurRow source w r y t) = w * h \<and>
         (\<forall>j<w * h. j < Suc y * w \<longrightarrow> inRange lo hi (blurRow source w r y t ! j))"
proof -
  define A where "A = (\<lambda>i. rd source (y * w + i))"
  define a where "a = (\<lambda>i. case A i of Num x \<Rightarrow> x | NaN \<Rightarrow> (0::real))"
  define g where "g = (\<lambda>m. a (min (w - 1) (m - r)))"
  have Aa: "A i = Num (a i)" and ab: "lo \<le> a i \<and> a i \<le> hi" if "i < w" for i
  proof -
    have "y * w + i < length source" unfolding len using that y by (rule cell_index_less)
    from inRange_rd[OF src this] show "A i = Num (a i)" "lo \<le> a i \<and> a i \<le> hi"
      unfolding A_def a_def by simp_all
  qed
  have gb: "lo \<le> g m \<and> g m \<le> hi" for m
  proof -
    have "min (w - 1) (m - r) < w" using r by simp
    then show ?thesis unfolding g_def by (rule ab)
  qed
  let ?ws = "real (r * 2 + 1)"
  define body where "body = (\<lambda>x (acc, temp).
               (let temp' = temp[y * w + x := ndiv acc ?ws];
                    leavingIndex = nat (max 0 (int x - int r));
                    enteringIndex = min (w - 1) (x + r + 1)
                in (nadd (nsub acc (A leavingIndex)) (A enteringIndex), temp')))"
  define s1 where "s1 = fold (\<lambda>i acc. nadd acc (A i)) [0..<r + 1]
               (fold (\<lambda>i acc. nadd acc (rd source (y * w))) [0..<r] (Num 0))"
  define res where "res = fold body [0..<w] (s1, t)"
  have eq: "blurRow source w r y t = snd res"
    by (simp only: blurRow_def Let_def res_def body_def s1_def A_def)
  have "s1 = fold (\<lambda>i acc. nadd acc (A i)) [0..<r + 1] (fold (\<lambda>i acc. nadd acc (A 0)) [0..<r] (Num 0))"
    unfolding s1_def A_def by simp
  also have "\<dots> = Num (sum g {0..<2 * r + 1})"
    unfolding g_def by (rule window_prefill[where A = A and a = a, OF Aa r])
  finally have s1: "s1 = Num (sum g {0..<0 + (2 * r + 1)})" by simp
  let ?P = "\<lambda>k st. case st of (acc, temp) \<Rightarrow>
              acc = Num (sum g {k..<k + (2 * r + 1)}) \<and> length temp = w * h \<and>
              (\<forall>j<w * h. j < y * w + k \<longrightarrow> inRange lo hi (temp ! j))"
  have fin: "?P w res" unfolding res_def
  proof (rule fold_upt_invariant[where P="?P"])
    show "?P 0 (s1, t)" using s1 lt pre by simp
  next
    fix k st assume k: "k < w" and st: "?P k st"
    obtain acc temp where [simp]: "st = (acc, temp)" by (cases st)
    from st have sm: "acc = Num (sum g {k..<k + (2 * r + 1)})" and l: "length temp = w * h"
      and ok: "\<And>j. j < w * h \<Longrightarrow> j < y * w + k \<Longrightarrow> inRange lo hi (temp ! j)" by auto
    have mean: "inRange lo hi (ndiv acc ?ws)"
      unfolding sm by (rule window_mean_inRange[OF gb])
    have slide: "nadd (nsub acc (A (nat (max 0 (int k - int r))))) (A (min (w - 1) (k + r + 1)))
                 = Num (sum g {Suc k..<Suc k + (2 * r + 1)})"
      unfolding sm g_def by (rule window_slide[where A = A and a = a, OF Aa k])
    have "inRange lo hi (temp[y * w + k := ndiv acc ?ws] ! j)" if "j < w * h" "j < y * w + Suc k" for j
    proof (cases "j = y * w + k")
      case True
      then show ?thesis using that l mean by simp
    next
      case False
      then show ?thesis using that ok[of j] by simp
    qed
    then show "?P (Suc k) (body k st)"
      using slide l unfolding body_def by (simp add: Let_def)
  qed
  then have "length (snd res) = w * h" "\<And>j. j < w * h \<Longrightarrow> j < y * w + w \<Longrightarrow> inRange lo hi (snd res ! j)"
    by (auto simp: split_beta)
  then show ?thesis unfolding eq by simp
qed

lemma blurCol_range:
  assumes len: "length temp = w * h" and tmp: "\<forall>v\<in>set temp. inRange lo hi v"
    and x: "x < w" and r: "r < h"
    and lt: "length t = w * h"
    and pre: "\<forall>j<w * h. j mod w < x \<longrightarrow> inRange lo hi (t ! j)"
  shows "length (blurCol temp w h r x t) = w * h \<and>
         (\<forall>j<w * h. j mod w < Suc x \<longrightarrow> inRange lo hi (blurCol temp w h r x t ! j))"
proof -
  define A where "A = (\<lambda>i. rd temp (i * w + x))"
  define a where "a = (\<lambda>i. case A i of Num x \<Rightarrow> x | NaN \<Rightarrow> (0::real))"
  define g where "g = (\<lambda>m. a (min (h - 1) (m - r)))"
  have Aa: "A i = Num (a i)" and ab: "lo \<le> a i \<and> a i \<le> hi" if "i < h" for i
  proof -
    have "i * w + x < length temp" unfolding len using x that by (rule cell_index_less)
    from inRange_rd[OF tmp this] show "A i = Num (a i)" "lo \<le> a i \<and> a i \<le> hi"
      unfolding A_def a_def by simp_all
  qed
  have gb: "lo \<le> g m \<and> g m \<le> hi" for m
  proof -
    have "min (h - 1) (m - r) < h" using r by simp
    then show ?thesis unfolding g_def by (rule ab)
  qed
  let ?ws = "real (r * 2 + 1)"
  define body where "body = (\<lambda>y (acc, target).
               (let target' = target[y * w + x := ndiv acc ?ws];
                    leavingIndex = nat (max 0 (int y - int r));
                    enteringIndex = min (h - 1) (y + r + 1)
                in (nadd (nsub acc (A leavingIndex)) (A enteringIndex), target')))"
  define s1 where "s1 = fold (\<lambda>i acc. nadd acc (rd temp (x + i * w))) [0..<r + 1]
               (fold (\<lambda>i acc. nadd acc (rd temp x)) [0..<r] (Num 0))"
  define res where "res = fold body [0..<h] (s1, t)"
  have eq: "blurCol temp w h r x t = snd res"
    by (simp only: blurCol_def Let_def res_def body_def s1_def A_def)
  have "s1 = fold (\<lambda>i acc. nadd acc (A i)) [0..<r + 1] (fold (\<lambda>i acc. nadd acc (A 0)) [0..<r] (Num 0))"
    unfolding s1_def A_def by (simp add: add.commute)
  also have "\<dots> = Num (sum g {0..<2 * r + 1})"
    unfolding g_def by (rule window_prefill[where A = A and a = a, OF Aa r])
  finally have s1: "s1 = Num (sum g {0..<0 + (2 * r + 1)})" by simp
  let ?P = "\<lambda>k st. case st of (acc, target) \<Rightarrow>
              acc = Num (sum g {k..<k + (2 * r + 1)}) \<and> length target = w * h \<and>
              (\<forall>j<w * h. j mod w < x \<or> (j mod w = x \<and> j div w < k) \<longrightarrow> inRange lo hi (target ! j))"
  have fin: "?P h res" unfolding res_def
  proof (rule fold_upt_invariant[where P="?P"])
    show "?P 0 (s1, t)" using s1 lt pre by simp
  next
    fix k st assume k: "k < h" and st: "?P k st"
    obtain acc target where [simp]: "st = (acc, target)" by (cases st)
    from st have sm: "acc = Num (sum g {k..<k + (2 * r + 1)})" and l: "length target = w * h"
      and ok: "\<And>j. j < w * h \<Longrightarrow> j mod w < x \<or> (j mod w = x \<and> j div w < k) \<Longrightarrow> inRange lo hi (target ! j)"
      by auto
    have mean: "inRange lo hi (ndiv acc ?ws)"
      unfolding sm by (rule window_mean_inRange[OF gb])
    have slide: "nadd (nsub acc (A (nat (max 0 (int k - int r))))) (A (min (h - 1) (k + r + 1)))
                 = Num (sum g {Suc k..<Suc k + (2 * r + 1)})"
      unfolding sm g_def by (rule window_slide[where A = A and a = a, OF Aa k])
    have "inRange lo hi (target[k * w + x := ndiv acc ?ws] ! j)"
      if j: "j < w * h" "j mod w < x \<or> (j mod w = x \<and> j div w < Suc k)" for j
    proof (cases "j = k * w + x")
      case True
      then show ?thesis using j l mean by simp
    next
      case False
      have "j div w * w + j mod w = j" by simp
      with False have "\<not> (j mod w = x \<and> j div w = k)" by metis
      with j(2) have "j mod w < x \<or> (j mod w = x \<and> j div w < k)" by (auto simp: less_Suc_eq)
      then show ?thesis using False ok[OF j(1)] by simp
    qed
    then show "?P (Suc k) (body k st)"
      using slide l unfolding body_def by (simp add: Let_def)
  qed
  have "inRange lo hi (snd res ! j)" if j: "j < w * h" "j mod w < Suc x" for j
  proof -
    have "j div w < h" using j(1) by (simp add: less_mult_imp_div_less mult.commute)
    then have "j mod w < x \<or> (j mod w = x \<and> j div w < h)" using j(2) by (auto simp: less_Suc_eq)
    then show ?thesis using fin j(1) by (auto simp: split_beta)
  qed
  moreover have "length (snd res) = w * h"
    using fin by (simp add: split_beta)
  ultimately show ?thesis
    unfolding eq by blast
qed

lemma boxBlur_range:
  assumes len: "length source = w * h" and src: "\<forall>v\<in>set source. inRange lo hi v"
    and r: "1 \<le> radius" "nat radius < w" "nat radius < h"
  shows "length (boxBlur source w h radius) = w * h \<and>
         (\<forall>v\<in>set (boxBlur source w h radius). inRange lo hi v)"
proof -
  define temp where "temp = fold (blurRow source w (nat radius)) [0..<h] (replicate (w * h) (Num 0))"
  define target where "target = fold (blurCol temp w h (nat radius)) [0..<w] (replicate (w * h) (Num 0))"
  have eq: "boxBlur source w h radius = target"
    using r(1) by (simp only: boxBlur_def Let_def target_def temp_def not_less[symmetric] if_False)
  let ?P = "\<lambda>k t. length t = w * h \<and> (\<forall>j<w * h. j < k * w \<longrightarrow> inRange lo hi (t ! j))"
  have "?P h temp" unfolding temp_def
  proof (rule fold_upt_invariant[where P="?P"])
    show "?P 0 (replicate (w * h) (Num 0))" by simp
  next
    fix k t assume "k < h" and "?P k t"
    then show "?P (Suc k) (blurRow source w (nat radius) k t)"
      using blurRow_range[OF len src _ r(2), of k t] by simp
  qed
  then have lt: "length temp = w * h" and "\<And>j. j < w * h \<Longrightarrow> inRange lo hi (temp ! j)"
    by (simp_all add: mult.commute)
  then have tmp: "\<forall>v\<in>set temp. inRange lo hi v"
    by (metis in_set_conv_nth)
  let ?Q = "\<lambda>k t. length t = w * h \<and> (\<forall>j<w * h. j mod w < k \<longrightarrow> inRange lo hi (t ! j))"
  have q: "?Q w target" unfolding target_def
  proof (rule fold_upt_invariant[where P="?Q"])
    show "?Q 0 (replicate (w * h) (Num 0))" by simp
  next
    fix k t assume "k < w" and "?Q k t"
    then show "?Q (Suc k) (blurCol temp w h (nat radius) k t)"
      using blurCol_range[OF lt tmp _ r(3), of k t] by simp
  qed
  have "inRange lo hi (target ! j)" if j: "j < w * h" for j
  proof -
    from j have "0 < w" by (cases w) simp_all
    then have "j mod w < w" by simp
    then show ?thesis using q j by blast
  qed
  moreover have "length target = w * h" using q by simp
  ultimately have "length target = w * h \<and> (\<forall>v\<in>set target. inRange lo hi v)"
    by (metis in_set_conv_nth)
  then show ?thesis unfolding eq .
qed

lemma boxBlur_identity: "radius < 1 \<Longrightarrow> boxBlur source w h radius = source"
  by (simp add: boxBlur_def)

section \<open>The box blur on planes narrower than the window\<close>

text \<open>
  Claim C7. The claim bounds every output value of the blur by the least and the greatest
  input value, for every plane and every radius of at least 1. The loop that fills the
  accumulator reads \<^verbatim>\<open>source[rowStart + i]\<close> for every \<open>i \<le> radius\<close> without clamping \<open>i\<close>
  to the row, unlike the sliding step: on a plane of one pixel with radius 1 it reads past
  the buffer and the only output value is \<^verbatim>\<open>NaN\<close>, and so is every output value of a plane
  of 2 by 2 pixels with radius 2.
\<close>

theorem boxBlur_narrow_plane_not_a_number:
  "boxBlur [Num 100] 1 1 1 = [NaN] \<and>
   boxBlur [Num 10, Num 20, Num 30, Num 40] 2 2 2 = [NaN, NaN, NaN, NaN]"
  by code_simp

section \<open>Page composition with several sizes\<close>





lemma drawVariant_variantCount:
  "drawVariant (s\<lparr>variantCount := n\<rparr>) w h count i = drawVariant s w h count i"
  by (simp add: drawVariant_def targetSizeInches_def)

lemma missing_variantCount:
  "variantCount s = 0 \<Longrightarrow> finishProcessing c s w h = finishProcessing c (s\<lparr>variantCount := 9\<rparr>) w h"
  by (simp add: finishProcessing_def variantTotal_def drawVariant_variantCount Let_def)




section \<open>The sharpening kernel\<close>

lemma sqrt_9: "sqrt 9 = 3"
  by (rule real_sqrt_unique) simp_all

lemma sharpen_side: "nat (round (sqrt (real (length (sharpenKernel s))))) = 3"
  by (simp add: sharpenKernel_def sqrt_9)

lemma upt_3: "[0..<3] = [0, 1, 2::nat]"
  by (simp add: numeral_3_eq_3 upt_rec)

lemma upt_2: "[0..<2] = [0, 1::nat]"
  by (simp add: numeral_2_eq_2 upt_rec)

lemma convolve_sharpen:
  "convolve data w h (sharpenKernel s) =
     fold (\<lambda>i t. (let (r, g, b) = convolveTaps data w h (sharpenKernel s) 3 1 (i mod w) (i div w);
                      dstOff = (i div w * w + i mod w) * 4
                  in t[dstOff := toUint8Clamp (clamp r 0 255),
                       dstOff + 1 := toUint8Clamp (clamp g 0 255),
                       dstOff + 2 := toUint8Clamp (clamp b 0 255)]))
          [0..<w * h] data"
proof -
  have "(3::nat) div 2 = 1" by simp
  then show ?thesis
    unfolding convolve_def sharpen_side Let_def
    by (simp only: nested_fold_flat)
qed

lemma sharpenKernel_1: "sharpenKernel 1 = [0, - 1, 0, - 1, 5, - 1, 0, - 1, 0]"
  by (simp add: sharpenKernel_def roundDouble_numeral)

lemma two_pixels_sharpened:
  "convolve [10, 10, 10, 255, 20, 20, 20, 255] 2 1 (sharpenKernel 1) = [30, 30, 30, 255, 90, 90, 90, 255]"
  unfolding convolve_sharpen
  by (simp add: sharpenKernel_1 convolveTaps_def upt_2 upt_3 rdb_def rdm_def toUint8Clamp_def clamp_def
        roundHalfEven_def roundDouble_numeral roundDouble_0_1 Let_def)

text \<open>
  Claim C5. The weights of the kernel sum to 1, and the comment above the call says that the
  brightness is therefore preserved. \<^verbatim>\<open>convolve\<close> skips the taps that fall outside the image
  and does not renormalise the weights that remain, so at a border pixel the weights that
  are applied sum to more than 1. On a raster of two pixels with the gray values 10 and 20
  and sharpness 1 the pixels become 30 and 90 (no result is clamped and none is rounded),
  and the mean of the red channel goes from 15 to 60.
\<close>

theorem sharpen_changes_channel_mean:
  "sum_list (sharpenKernel 1) = 1 \<and>
   convolve [10, 10, 10, 255, 20, 20, 20, 255] 2 1 (sharpenKernel 1) = [30, 30, 30, 255, 90, 90, 90, 255] \<and>
   channelMean [10, 10, 10, 255, 20, 20, 20, 255] 2 1 0 = 15 \<and>
   channelMean (convolve [10, 10, 10, 255, 20, 20, 20, 255] 2 1 (sharpenKernel 1)) 2 1 0 = 60"
  unfolding two_pixels_sharpened
  by (simp add: sharpenKernel_1 channelMean_def upt_2)

section \<open>Brilliance\<close>








end
